theory Spec2Isabelle
  imports Complex_Main "HOL-Library.AList" "HOL-Library.Stream"
begin

section \<open>Monte Carlo tree search: the data model\<close>

text \<open>
  The development embeds the two modules \<^verbatim>\<open>mcts_vanilla.py\<close> and
  \<^verbatim>\<open>mcts_modified.py\<close>. Python objects live in an explicit store: a node
  reference is an index into a list of node records, and every function that mutates a
  node takes the store and returns the new one. Python exceptions are values of the type
  \<open>error\<close>; a function that can raise returns \<open>error + 'r\<close>. A loop that can run
  forever returns an \<open>option\<close>, where \<open>None\<close> stands for not returning. Python
  floats are idealised as real numbers, with \<^verbatim>\<open>float('inf')\<close> as a value of its own.
\<close>

datatype error = ValueError | KeyError | ZeroDivisionError | AttributeError
  | IndexError | AssertionError | TypeError

type_synonym ref = nat

text \<open>
  Modelled from the spec: the class \<^verbatim>\<open>MCTSNode\<close> of the module
  \<^verbatim>\<open>mcts_node\<close>, which both source files import. The fields are those the
  source reads and writes; \<open>child_nodes\<close> is a dictionary in insertion order, an
  association list whose keys are the actions.
\<close>

record 'a MCTSNode =
  parent :: "ref option"
  parent_action :: "'a option"
  child_nodes :: "('a \<times> ref) list"
  untried_actions :: "'a list"
  wins :: int
  visits :: int

type_synonym 'a heap = "'a MCTSNode list"

text \<open>
  Modelled from the spec: the constructor of \<^verbatim>\<open>MCTSNode\<close>. A node is
  constructed with a parent reference, the originating action and the initial legal
  actions; both counters start at 0 and there is no child yet.
\<close>

definition new_MCTSNode :: "ref option \<Rightarrow> 'a option \<Rightarrow> 'a list \<Rightarrow> 'a MCTSNode" where
  "new_MCTSNode p pa action_list =
     \<lparr>parent = p, parent_action = pa, child_nodes = [], untried_actions = action_list,
      wins = 0, visits = 0\<rparr>"

text \<open>
  Modelled from the spec: the class \<^verbatim>\<open>Board\<close> of the module \<^verbatim>\<open>p2_t3\<close>, the
  game abstraction. It is a parameter of every function that uses it.
  \<open>points_values\<close> is \<open>None\<close> on a state that is not terminal, and otherwise a
  dictionary from player identities to outcome values.
\<close>

record ('s, 'a) Board =
  is_ended :: "'s \<Rightarrow> bool"
  legal_actions :: "'s \<Rightarrow> 'a list"
  next_state :: "'s \<Rightarrow> 'a \<Rightarrow> 's"
  current_player :: "'s \<Rightarrow> int"
  points_values :: "'s \<Rightarrow> (int \<rightharpoonup> int) option"

subsection \<open>The random source\<close>

text \<open>
  The module \<^verbatim>\<open>random\<close> is an explicit argument: a stream of the integers that
  \<^verbatim>\<open>choice\<close> draws and a stream of the floats that \<^verbatim>\<open>random()\<close> returns.
  \<^verbatim>\<open>choice(seq)\<close> raises IndexError on an empty sequence and otherwise returns
  the element at a drawn index below the length.
\<close>

type_synonym rng = "nat stream \<times> real stream"

definition choice :: "'b list \<Rightarrow> rng \<Rightarrow> error + ('b \<times> rng)" where
  "choice xs g =
     (if xs = [] then Inl IndexError
      else Inr (xs ! (shd (fst g) mod length xs), (stl (fst g), snd g)))"

definition random :: "rng \<Rightarrow> real \<times> rng" where
  "random g = (shd (snd g), (fst g, stl (snd g)))"

subsection \<open>The builtin max with a key\<close>

text \<open>
  \<^verbatim>\<open>max(iterable, key=f)\<close> keeps the first item and replaces it only by an item
  whose key is strictly greater, so the first of several maximal items is returned. An
  exception raised by the key function ends the call; an empty iterable raises
  ValueError.
\<close>

fun max_loop :: "('k \<Rightarrow> 'k \<Rightarrow> bool) \<Rightarrow> ('b \<Rightarrow> error + 'k) \<Rightarrow> 'b \<Rightarrow> 'k \<Rightarrow> 'b list \<Rightarrow> error + 'b" where
  "max_loop gt key best bk [] = Inr best"
| "max_loop gt key best bk (x # xs) =
     (case key x of
        Inl e \<Rightarrow> Inl e
      | Inr k \<Rightarrow> if gt k bk then max_loop gt key x k xs else max_loop gt key best bk xs)"

definition py_max :: "('k \<Rightarrow> 'k \<Rightarrow> bool) \<Rightarrow> ('b \<Rightarrow> error + 'k) \<Rightarrow> 'b list \<Rightarrow> error + 'b" where
  "py_max gt key xs =
     (case xs of
        [] \<Rightarrow> Inl ValueError
      | x # rest \<Rightarrow> (case key x of Inl e \<Rightarrow> Inl e | Inr k \<Rightarrow> max_loop gt key x k rest))"

section \<open>mcts_vanilla: confidence-bound selection\<close>

definition num_nodes :: nat where
  "num_nodes = 100"

definition explore_faction :: real where
  "explore_faction = 2"

datatype pyfloat = Fin real | PosInf

fun float_gt :: "pyfloat \<Rightarrow> pyfloat \<Rightarrow> bool" where
  "float_gt (Fin a) (Fin b) = (b < a)"
| "float_gt PosInf (Fin b) = True"
| "float_gt x PosInf = False"

text \<open>
  \<^verbatim>\<open>ucb(node, bot_identity)\<close>. \<^verbatim>\<open>node.parent.visits\<close> raises AttributeError
  when the parent is None, \<^verbatim>\<open>log\<close> raises ValueError on an argument that is not
  positive, and \<^verbatim>\<open>sqrt\<close> raises ValueError on a negative argument.
\<close>

definition ucb :: "'a heap \<Rightarrow> ref \<Rightarrow> int \<Rightarrow> error + pyfloat" where
  "ucb h node bot_identity =
     (if visits (h ! node) = 0 then Inr PosInf
      else
        let exploitation = real_of_int (wins (h ! node)) / real_of_int (visits (h ! node)) in
        case parent (h ! node) of
          None \<Rightarrow> Inl AttributeError
        | Some p \<Rightarrow>
            if visits (h ! p) \<le> 0 then Inl ValueError
            else
              let q = ln (real_of_int (visits (h ! p))) / real_of_int (visits (h ! node)) in
              if q < 0 then Inl ValueError
              else
                let exploration = explore_faction * sqrt q in
                Inr (Fin (if bot_identity = 1 then exploitation + exploration
                          else - exploitation + exploration)))"

text \<open>
  Line 31 of \<^verbatim>\<open>traverse_nodes\<close>: the child with the highest UCB value among
  \<^verbatim>\<open>node.child_nodes.values()\<close>.
\<close>

definition ucb_select :: "'a heap \<Rightarrow> ref \<Rightarrow> int \<Rightarrow> error + ref" where
  "ucb_select h node bot_identity =
     py_max float_gt (\<lambda>x. ucb h x bot_identity) (map snd (child_nodes (h ! node)))"

text \<open>
  \<^verbatim>\<open>traverse_nodes\<close> of \<^verbatim>\<open>mcts_vanilla\<close>. The action applied to the state is
  the \<open>parent_action\<close> field of the selected child; the board is defined on actions
  only, so the value None there is a TypeError.
\<close>

partial_function (option) traverse_nodes ::
  "'a heap \<Rightarrow> ref \<Rightarrow> ('s, 'a) Board \<Rightarrow> 's \<Rightarrow> int \<Rightarrow> (error + ref \<times> 's) option" where
  "traverse_nodes h node board state bot_identity =
     (if \<not> is_ended board state \<and> untried_actions (h ! node) = [] then
        (if child_nodes (h ! node) = []
            \<or> list_all (\<lambda>child. visits (h ! child) = 0) (map snd (child_nodes (h ! node)))
         then Some (Inr (node, state))
         else
           (case ucb_select h node bot_identity of
              Inl e \<Rightarrow> Some (Inl e)
            | Inr node' \<Rightarrow>
                (case parent_action (h ! node') of
                   None \<Rightarrow> Some (Inl TypeError)
                 | Some action \<Rightarrow>
                     traverse_nodes h node' board (next_state board state action) bot_identity)))
      else Some (Inr (node, state)))"

section \<open>Functions that are the same in both modules\<close>

text \<open>
  \<^verbatim>\<open>expand_leaf\<close>. \<^verbatim>\<open>list.remove\<close> deletes the first item equal to the action;
  the assignment \<^verbatim>\<open>node.child_nodes[action] = child_node\<close> replaces the value of
  a key that is present and appends a new key otherwise. The new node is allocated at the
  end of the store.
\<close>

definition expand_leaf ::
  "'a heap \<Rightarrow> ref \<Rightarrow> ('s, 'a) Board \<Rightarrow> 's \<Rightarrow> rng \<Rightarrow> error + ('a heap \<times> ref \<times> 's \<times> rng)" where
  "expand_leaf h node board state g =
     (if untried_actions (h ! node) \<noteq> [] then
        (case choice (untried_actions (h ! node)) g of
           Inl e \<Rightarrow> Inl e
         | Inr (action, g') \<Rightarrow>
             let n1 = (h ! node)\<lparr>untried_actions := remove1 action (untried_actions (h ! node))\<rparr>;
                 new_state = next_state board state action;
                 child_node = new_MCTSNode (Some node) (Some action) (legal_actions board new_state);
                 child_ref = length h;
                 n2 = n1\<lparr>child_nodes := AList.update action child_ref (child_nodes n1)\<rparr>
             in Inr (h[node := n2] @ [child_node], child_ref, new_state, g'))
      else Inr (h, node, state, g))"

text \<open>
  \<^verbatim>\<open>rollout\<close> of \<^verbatim>\<open>mcts_vanilla\<close>: the action is drawn with \<^verbatim>\<open>choice\<close>.
\<close>

partial_function (option) rollout ::
  "('s, 'a) Board \<Rightarrow> 's \<Rightarrow> rng \<Rightarrow> (error + 's \<times> rng) option" where
  "rollout board state g =
     (if \<not> is_ended board state then
        (case choice (legal_actions board state) g of
           Inl e \<Rightarrow> Some (Inl e)
         | Inr (action, g') \<Rightarrow> rollout board (next_state board state action) g')
      else Some (Inr (state, g)))"

text \<open>
  \<^verbatim>\<open>backpropagate\<close>. The loop variable is a node or None, here a \<open>ref option\<close>.
\<close>

partial_function (option) backpropagate :: "'a heap \<Rightarrow> ref option \<Rightarrow> bool \<Rightarrow> 'a heap option" where
  "backpropagate h node won =
     (case node of
        None \<Rightarrow> Some h
      | Some r \<Rightarrow>
          let n1 = (h ! r)\<lparr>visits := visits (h ! r) + 1\<rparr>;
              n2 = (if won then n1\<lparr>wins := wins n1 + 1\<rparr> else n1)
          in backpropagate (h[r := n2]) (parent n2) won)"

text \<open>
  \<^verbatim>\<open>get_best_action\<close>. The key function reads \<^verbatim>\<open>root_node.child_nodes[x]\<close>, a
  KeyError when the key is absent.
\<close>

definition child_visits :: "'a heap \<Rightarrow> ('a \<times> ref) list \<Rightarrow> 'a \<Rightarrow> error + int" where
  "child_visits h cn x =
     (case map_of cn x of None \<Rightarrow> Inl KeyError | Some c \<Rightarrow> Inr (visits (h ! c)))"

definition get_best_action :: "'a heap \<Rightarrow> ref \<Rightarrow> error + 'a option" where
  "get_best_action h root_node =
     (if child_nodes (h ! root_node) = [] then Inr None
      else
        (case py_max (\<lambda>a b. b < a) (child_visits h (child_nodes (h ! root_node)))
                (map fst (child_nodes (h ! root_node))) of
           Inl e \<Rightarrow> Inl e
         | Inr a \<Rightarrow> Inr (Some a)))"

text \<open>
  \<^verbatim>\<open>is_win\<close>. The assertion fails on a state without outcome; the subscript
  \<^verbatim>\<open>outcome[identity_of_bot]\<close> raises KeyError on an identity without a value.
\<close>

definition is_win :: "('s, 'a) Board \<Rightarrow> 's \<Rightarrow> int \<Rightarrow> error + bool" where
  "is_win board state identity_of_bot =
     (case points_values board state of
        None \<Rightarrow> Inl AssertionError
      | Some outcome \<Rightarrow>
          (case outcome identity_of_bot of
             None \<Rightarrow> Inl KeyError
           | Some v \<Rightarrow> Inr (v = 1)))"

section \<open>mcts_vanilla: the search driver\<close>

text \<open>
  One pass of the body of the loop in \<^verbatim>\<open>think\<close>: traverse, expand, roll out,
  score and backpropagate. The root node is the reference \<open>root_node\<close> into the
  store.
\<close>

definition think_step ::
  "('s, 'a) Board \<Rightarrow> 's \<Rightarrow> int \<Rightarrow> ref \<Rightarrow> 'a heap \<Rightarrow> rng \<Rightarrow> (error + 'a heap \<times> rng) option" where
  "think_step board current_state bot_identity root_node h g =
     (case traverse_nodes h root_node board current_state bot_identity of
        None \<Rightarrow> None
      | Some (Inl e) \<Rightarrow> Some (Inl e)
      | Some (Inr (node, state)) \<Rightarrow>
          (case expand_leaf h node board state g of
             Inl e \<Rightarrow> Some (Inl e)
           | Inr (h1, node1, state1, g1) \<Rightarrow>
               (case rollout board state1 g1 of
                  None \<Rightarrow> None
                | Some (Inl e) \<Rightarrow> Some (Inl e)
                | Some (Inr (result_state, g2)) \<Rightarrow>
                    (case is_win board result_state bot_identity of
                       Inl e \<Rightarrow> Some (Inl e)
                     | Inr won \<Rightarrow>
                         (case backpropagate h1 (Some node1) won of
                            None \<Rightarrow> None
                          | Some h2 \<Rightarrow> Some (Inr (h2, g2)))))))"

fun think_loop ::
  "nat \<Rightarrow> ('s, 'a) Board \<Rightarrow> 's \<Rightarrow> int \<Rightarrow> ref \<Rightarrow> 'a heap \<Rightarrow> rng \<Rightarrow> (error + 'a heap \<times> rng) option" where
  "think_loop 0 board current_state bot_identity root_node h g = Some (Inr (h, g))"
| "think_loop (Suc n) board current_state bot_identity root_node h g =
     (case think_step board current_state bot_identity root_node h g of
        None \<Rightarrow> None
      | Some (Inl e) \<Rightarrow> Some (Inl e)
      | Some (Inr (h', g')) \<Rightarrow> think_loop n board current_state bot_identity root_node h' g')"

text \<open>
  \<^verbatim>\<open>think\<close>. The tree is built fresh: the store holds the root alone, at
  reference 0. The call of \<^verbatim>\<open>print\<close> writes to the standard output and is left
  out.
\<close>

definition think :: "('s, 'a) Board \<Rightarrow> 's \<Rightarrow> rng \<Rightarrow> (error + 'a option) option" where
  "think board current_state g =
     (let bot_identity = current_player board current_state;
          root_node = new_MCTSNode None None (legal_actions board current_state)
      in case think_loop num_nodes board current_state bot_identity 0 [root_node] g of
           None \<Rightarrow> None
         | Some (Inl e) \<Rightarrow> Some (Inl e)
         | Some (Inr (h, g')) \<Rightarrow> Some (get_best_action h 0))"

section \<open>mcts_modified: visit-proportional selection\<close>

definition num_nodes_mod :: nat where
  "num_nodes_mod = 1000"

text \<open>
  \<^verbatim>\<open>roulette_wheel_selection\<close>. The dictionary of probabilities is an association
  list in insertion order. A loop that ends without \<^verbatim>\<open>return\<close> gives None.
\<close>

fun roulette_loop :: "real \<Rightarrow> real \<Rightarrow> ('a \<times> real) list \<Rightarrow> 'a option" where
  "roulette_loop threshold cumulative_prob [] = None"
| "roulette_loop threshold cumulative_prob ((action, prob) # rest) =
     (if threshold \<le> cumulative_prob + prob then Some action
      else roulette_loop threshold (cumulative_prob + prob) rest)"

definition roulette_wheel_selection :: "('a \<times> real) list \<Rightarrow> rng \<Rightarrow> 'a option \<times> rng" where
  "roulette_wheel_selection probabilities g =
     (case random g of (threshold, g') \<Rightarrow> (roulette_loop threshold 0 probabilities, g'))"

text \<open>
  Lines 32 and 33 of \<^verbatim>\<open>traverse_nodes\<close>: the sum of the visits of the children
  and the dictionary comprehension, which divides once for every child and so raises
  ZeroDivisionError when there is a child and the sum is 0.
\<close>

definition total_visits :: "'a heap \<Rightarrow> ('a \<times> ref) list \<Rightarrow> int" where
  "total_visits h cn = sum_list (map (\<lambda>child. visits (h ! child)) (map snd cn))"

definition probabilities :: "'a heap \<Rightarrow> ('a \<times> ref) list \<Rightarrow> error + ('a \<times> real) list" where
  "probabilities h cn =
     (if cn \<noteq> [] \<and> total_visits h cn = 0 then Inl ZeroDivisionError
      else Inr (map (\<lambda>(action, child).
                  (action, real_of_int (visits (h ! child)) / real_of_int (total_visits h cn))) cn))"

text \<open>
  \<^verbatim>\<open>traverse_nodes\<close> of \<^verbatim>\<open>mcts_modified\<close>. The subscript
  \<^verbatim>\<open>node.child_nodes[selected_action]\<close> raises KeyError when the selection gave
  None or a key that is absent.
\<close>

partial_function (option) traverse_nodes_mod ::
  "'a heap \<Rightarrow> ref \<Rightarrow> ('s, 'a) Board \<Rightarrow> 's \<Rightarrow> int \<Rightarrow> rng \<Rightarrow> (error + ref \<times> 's \<times> rng) option" where
  "traverse_nodes_mod h node board state bot_identity g =
     (if \<not> is_ended board state \<and> untried_actions (h ! node) = [] then
        (if child_nodes (h ! node) = []
            \<or> list_all (\<lambda>child. visits (h ! child) = 0) (map snd (child_nodes (h ! node)))
         then Some (Inr (node, state, g))
         else
           (case probabilities h (child_nodes (h ! node)) of
              Inl e \<Rightarrow> Some (Inl e)
            | Inr probs \<Rightarrow>
                (case roulette_wheel_selection probs g of
                   (None, g') \<Rightarrow> Some (Inl KeyError)
                 | (Some selected_action, g') \<Rightarrow>
                     (case map_of (child_nodes (h ! node)) selected_action of
                        None \<Rightarrow> Some (Inl KeyError)
                      | Some node' \<Rightarrow>
                          (case parent_action (h ! node') of
                             None \<Rightarrow> Some (Inl TypeError)
                           | Some action \<Rightarrow>
                               traverse_nodes_mod h node' board
                                 (next_state board state action) bot_identity g')))))
      else Some (Inr (node, state, g)))"

text \<open>
  \<^verbatim>\<open>heuristic_strategy\<close> and \<^verbatim>\<open>rollout\<close> of \<^verbatim>\<open>mcts_modified\<close>.
\<close>

definition heuristic_strategy ::
  "('s, 'a) Board \<Rightarrow> 's \<Rightarrow> 'a list \<Rightarrow> rng \<Rightarrow> error + ('a \<times> rng)" where
  "heuristic_strategy board state acts g = choice acts g"

partial_function (option) rollout_mod ::
  "('s, 'a) Board \<Rightarrow> 's \<Rightarrow> rng \<Rightarrow> (error + 's \<times> rng) option" where
  "rollout_mod board state g =
     (if \<not> is_ended board state then
        (case heuristic_strategy board state (legal_actions board state) g of
           Inl e \<Rightarrow> Some (Inl e)
         | Inr (action, g') \<Rightarrow> rollout_mod board (next_state board state action) g')
      else Some (Inr (state, g)))"

section \<open>mcts_modified: the search driver\<close>

definition think_step_mod ::
  "('s, 'a) Board \<Rightarrow> 's \<Rightarrow> int \<Rightarrow> ref \<Rightarrow> 'a heap \<Rightarrow> rng \<Rightarrow> (error + 'a heap \<times> rng) option" where
  "think_step_mod board current_state bot_identity root_node h g =
     (case traverse_nodes_mod h root_node board current_state bot_identity g of
        None \<Rightarrow> None
      | Some (Inl e) \<Rightarrow> Some (Inl e)
      | Some (Inr (node, state, g0)) \<Rightarrow>
          (case expand_leaf h node board state g0 of
             Inl e \<Rightarrow> Some (Inl e)
           | Inr (h1, node1, state1, g1) \<Rightarrow>
               (case rollout_mod board state1 g1 of
                  None \<Rightarrow> None
                | Some (Inl e) \<Rightarrow> Some (Inl e)
                | Some (Inr (result_state, g2)) \<Rightarrow>
                    (case is_win board result_state bot_identity of
                       Inl e \<Rightarrow> Some (Inl e)
                     | Inr won \<Rightarrow>
                         (case backpropagate h1 (Some node1) won of
                            None \<Rightarrow> None
                          | Some h2 \<Rightarrow> Some (Inr (h2, g2)))))))"

fun think_loop_mod ::
  "nat \<Rightarrow> ('s, 'a) Board \<Rightarrow> 's \<Rightarrow> int \<Rightarrow> ref \<Rightarrow> 'a heap \<Rightarrow> rng \<Rightarrow> (error + 'a heap \<times> rng) option" where
  "think_loop_mod 0 board current_state bot_identity root_node h g = Some (Inr (h, g))"
| "think_loop_mod (Suc n) board current_state bot_identity root_node h g =
     (case think_step_mod board current_state bot_identity root_node h g of
        None \<Rightarrow> None
      | Some (Inl e) \<Rightarrow> Some (Inl e)
      | Some (Inr (h', g')) \<Rightarrow> think_loop_mod n board current_state bot_identity root_node h' g')"

definition think_mod :: "('s, 'a) Board \<Rightarrow> 's \<Rightarrow> rng \<Rightarrow> (error + 'a option) option" where
  "think_mod board current_state g =
     (let bot_identity = current_player board current_state;
          root_node = new_MCTSNode None None (legal_actions board current_state)
      in case think_loop_mod num_nodes_mod board current_state bot_identity 0 [root_node] g of
           None \<Rightarrow> None
         | Some (Inl e) \<Rightarrow> Some (Inl e)
         | Some (Inr (h, g')) \<Rightarrow> Some (get_best_action h 0))"

section \<open>The search drivers with a record of the rollout calls\<close>

text \<open>
  The body of the loop in \<^verbatim>\<open>think\<close> of \<^verbatim>\<open>mcts_vanilla\<close> once more, with
  a record of the calls of \<^verbatim>\<open>rollout\<close>: beside the result of \<open>think_step\<close> it
  returns the list of the states that \<^verbatim>\<open>rollout\<close> was called on during the pass, which
  is empty when an exception ends the pass before the call and holds the one state
  otherwise. The record is not part of the program; the first component of the result is
  the result of \<open>think_step\<close>.
\<close>

definition think_step_traced ::
  "('s, 'a) Board \<Rightarrow> 's \<Rightarrow> int \<Rightarrow> ref \<Rightarrow> 'a heap \<Rightarrow> rng \<Rightarrow> ((error + 'a heap \<times> rng) \<times> 's list) option" where
  "think_step_traced board current_state bot_identity root_node h g =
     (case traverse_nodes h root_node board current_state bot_identity of
        None \<Rightarrow> None
      | Some (Inl e) \<Rightarrow> Some (Inl e, [])
      | Some (Inr (node, state)) \<Rightarrow>
          (case expand_leaf h node board state g of
             Inl e \<Rightarrow> Some (Inl e, [])
           | Inr (h1, node1, state1, g1) \<Rightarrow>
               (case rollout board state1 g1 of
                  None \<Rightarrow> None
                | Some (Inl e) \<Rightarrow> Some (Inl e, [state1])
                | Some (Inr (result_state, g2)) \<Rightarrow>
                    (case is_win board result_state bot_identity of
                       Inl e \<Rightarrow> Some (Inl e, [state1])
                     | Inr won \<Rightarrow>
                         (case backpropagate h1 (Some node1) won of
                            None \<Rightarrow> None
                          | Some h2 \<Rightarrow> Some (Inr (h2, g2), [state1]))))))"

text \<open>
  The loop and the driver with the record: the calls of the passes in their order.
\<close>

fun think_loop_traced ::
  "nat \<Rightarrow> ('s, 'a) Board \<Rightarrow> 's \<Rightarrow> int \<Rightarrow> ref \<Rightarrow> 'a heap \<Rightarrow> rng \<Rightarrow> ((error + 'a heap \<times> rng) \<times> 's list) option" where
  "think_loop_traced 0 board current_state bot_identity root_node h g = Some (Inr (h, g), [])"
| "think_loop_traced (Suc n) board current_state bot_identity root_node h g =
     (case think_step_traced board current_state bot_identity root_node h g of
        None \<Rightarrow> None
      | Some (Inl e, calls) \<Rightarrow> Some (Inl e, calls)
      | Some (Inr (h', g'), calls) \<Rightarrow>
          (case think_loop_traced n board current_state bot_identity root_node h' g' of
             None \<Rightarrow> None
           | Some (res, calls') \<Rightarrow> Some (res, calls @ calls')))"

definition think_traced :: "('s, 'a) Board \<Rightarrow> 's \<Rightarrow> rng \<Rightarrow> ((error + 'a option) \<times> 's list) option" where
  "think_traced board current_state g =
     (let bot_identity = current_player board current_state;
          root_node = new_MCTSNode None None (legal_actions board current_state)
      in case think_loop_traced num_nodes board current_state bot_identity 0 [root_node] g of
           None \<Rightarrow> None
         | Some (Inl e, calls) \<Rightarrow> Some (Inl e, calls)
         | Some (Inr (h, g'), calls) \<Rightarrow> Some (get_best_action h 0, calls))"

text \<open>
  The same for \<^verbatim>\<open>mcts_modified\<close>.
\<close>

definition think_step_mod_traced ::
  "('s, 'a) Board \<Rightarrow> 's \<Rightarrow> int \<Rightarrow> ref \<Rightarrow> 'a heap \<Rightarrow> rng \<Rightarrow> ((error + 'a heap \<times> rng) \<times> 's list) option" where
  "think_step_mod_traced board current_state bot_identity root_node h g =
     (case traverse_nodes_mod h root_node board current_state bot_identity g of
        None \<Rightarrow> None
      | Some (Inl e) \<Rightarrow> Some (Inl e, [])
      | Some (Inr (node, state, g0)) \<Rightarrow>
          (case expand_leaf h node board state g0 of
             Inl e \<Rightarrow> Some (Inl e, [])
           | Inr (h1, node1, state1, g1) \<Rightarrow>
               (case rollout_mod board state1 g1 of
                  None \<Rightarrow> None
                | Some (Inl e) \<Rightarrow> Some (Inl e, [state1])
                | Some (Inr (result_state, g2)) \<Rightarrow>
                    (case is_win board result_state bot_identity of
                       Inl e \<Rightarrow> Some (Inl e, [state1])
                     | Inr won \<Rightarrow>
                         (case backpropagate h1 (Some node1) won of
                            None \<Rightarrow> None
                          | Some h2 \<Rightarrow> Some (Inr (h2, g2), [state1]))))))"

fun think_loop_mod_traced ::
  "nat \<Rightarrow> ('s, 'a) Board \<Rightarrow> 's \<Rightarrow> int \<Rightarrow> ref \<Rightarrow> 'a heap \<Rightarrow> rng \<Rightarrow> ((error + 'a heap \<times> rng) \<times> 's list) option" where
  "think_loop_mod_traced 0 board current_state bot_identity root_node h g = Some (Inr (h, g), [])"
| "think_loop_mod_traced (Suc n) board current_state bot_identity root_node h g =
     (case think_step_mod_traced board current_state bot_identity root_node h g of
        None \<Rightarrow> None
      | Some (Inl e, calls) \<Rightarrow> Some (Inl e, calls)
      | Some (Inr (h', g'), calls) \<Rightarrow>
          (case think_loop_mod_traced n board current_state bot_identity root_node h' g' of
             None \<Rightarrow> None
           | Some (res, calls') \<Rightarrow> Some (res, calls @ calls')))"

definition think_mod_traced :: "('s, 'a) Board \<Rightarrow> 's \<Rightarrow> rng \<Rightarrow> ((error + 'a option) \<times> 's list) option" where
  "think_mod_traced board current_state g =
     (let bot_identity = current_player board current_state;
          root_node = new_MCTSNode None None (legal_actions board current_state)
      in case think_loop_mod_traced num_nodes_mod board current_state bot_identity 0 [root_node] g of
           None \<Rightarrow> None
         | Some (Inl e, calls) \<Rightarrow> Some (Inl e, calls)
         | Some (Inr (h, g'), calls) \<Rightarrow> Some (get_best_action h 0, calls))"

section \<open>Well-formed stores, paths and example data\<close>

text \<open>
  Nodes are allocated at the end of the store, so in a store built by the search the
  parent of a node has a smaller reference than the node, and a child a larger one.
\<close>

definition wf_parents :: "'a heap \<Rightarrow> bool" where
  "wf_parents h = (\<forall>r<length h. \<forall>p. parent (h ! r) = Some p \<longrightarrow> p < r)"

text \<open>
  \<open>on_path h r x\<close>: the node \<open>x\<close> is \<open>r\<close> or is reached from \<open>r\<close> through
  \<open>parent\<close> references.
\<close>

inductive on_path :: "'a heap \<Rightarrow> ref \<Rightarrow> ref \<Rightarrow> bool" for h :: "'a heap" and r :: ref where
  start: "on_path h r r"
| up: "on_path h r x \<Longrightarrow> parent (h ! x) = Some p \<Longrightarrow> on_path h r p"

code_pred on_path .

definition bump :: "bool \<Rightarrow> 'a MCTSNode \<Rightarrow> 'a MCTSNode" where
  "bump won n = n\<lparr>visits := visits n + 1, wins := (if won then wins n + 1 else wins n)\<rparr>"

text \<open>
  A store of four nodes: the root 0 with the children 1 and 2, and the node 3 below 1.
\<close>

definition ex_heap :: "nat heap" where
  "ex_heap =
     [\<lparr>parent = None, parent_action = None, child_nodes = [(0, 1), (1, 2)],
       untried_actions = [], wins = 1, visits = 2\<rparr>,
      \<lparr>parent = Some 0, parent_action = Some 0, child_nodes = [(0, 3)],
       untried_actions = [1], wins = 1, visits = 1\<rparr>,
      \<lparr>parent = Some 0, parent_action = Some 1, child_nodes = [],
       untried_actions = [0, 1], wins = 0, visits = 1\<rparr>,
      \<lparr>parent = Some 1, parent_action = Some 0, child_nodes = [],
       untried_actions = [0, 1], wins = 0, visits = 0\<rparr>]"

text \<open>
  A root with three children, of which the second has not been visited. The first child
  has the most visits and the third the best win rate.
\<close>

definition mix_heap :: "nat heap" where
  "mix_heap =
     [\<lparr>parent = None, parent_action = None, child_nodes = [(0, 1), (1, 2), (2, 3)],
       untried_actions = [], wins = 2, visits = 3\<rparr>,
      \<lparr>parent = Some 0, parent_action = Some 0, child_nodes = [],
       untried_actions = [0], wins = 1, visits = 2\<rparr>,
      \<lparr>parent = Some 0, parent_action = Some 1, child_nodes = [],
       untried_actions = [0], wins = 0, visits = 0\<rparr>,
      \<lparr>parent = Some 0, parent_action = Some 2, child_nodes = [],
       untried_actions = [0], wins = 1, visits = 1\<rparr>]"

text \<open>
  A game for the examples: one legal action in every state that is not terminal, the
  state counts the moves, the players alternate, the game ends after three moves and the
  player 1 wins.
\<close>

definition line_board :: "(nat, nat) Board" where
  "line_board =
     \<lparr>is_ended = (\<lambda>s. 3 \<le> s),
      legal_actions = (\<lambda>s. if s < 3 then [0] else []),
      next_state = (\<lambda>s a. Suc s),
      current_player = (\<lambda>s. if even s then 1 else 2),
      points_values = (\<lambda>s. if 3 \<le> s then Some [1 \<mapsto> 1, 2 \<mapsto> - 1] else None)\<rparr>"

text \<open>
  The store after two passes of the search on \<open>line_board\<close> from the state 0.
\<close>

definition turn_heap :: "nat heap" where
  "turn_heap =
     [\<lparr>parent = None, parent_action = None, child_nodes = [(0, 1)],
       untried_actions = [], wins = 2, visits = 2\<rparr>,
      \<lparr>parent = Some 0, parent_action = Some 0, child_nodes = [(0, 2)],
       untried_actions = [], wins = 2, visits = 2\<rparr>,
      \<lparr>parent = Some 1, parent_action = Some 0, child_nodes = [],
       untried_actions = [0], wins = 1, visits = 1\<rparr>]"

text \<open>A random source that draws 0 every time.\<close>

definition zero_rng :: rng where
  "zero_rng = (sconst 0, sconst 0)"

text \<open>
  A root whose three children have 10, 30 and 60 visits.
\<close>

definition wheel_heap :: "nat heap" where
  "wheel_heap =
     [\<lparr>parent = None, parent_action = None, child_nodes = [(0, 1), (1, 2), (2, 3)],
       untried_actions = [], wins = 50, visits = 100\<rparr>,
      \<lparr>parent = Some 0, parent_action = Some 0, child_nodes = [],
       untried_actions = [0], wins = 5, visits = 10\<rparr>,
      \<lparr>parent = Some 0, parent_action = Some 1, child_nodes = [],
       untried_actions = [0], wins = 15, visits = 30\<rparr>,
      \<lparr>parent = Some 0, parent_action = Some 2, child_nodes = [],
       untried_actions = [0], wins = 30, visits = 60\<rparr>]"

text \<open>
  The condition under which the loop of \<^verbatim>\<open>traverse_nodes\<close> returns the current node:
  the state is terminal, or the node has an untried action, or it has no child, or no
  child of it has been visited.
\<close>

definition stop_here :: "('s, 'a) Board \<Rightarrow> 'a heap \<Rightarrow> ref \<Rightarrow> 's \<Rightarrow> bool" where
  "stop_here board h node state =
     (is_ended board state \<or> untried_actions (h ! node) \<noteq> [] \<or> child_nodes (h ! node) = []
      \<or> list_all (\<lambda>child. visits (h ! child) = 0) (map snd (child_nodes (h ! node))))"

text \<open>
  Every child reference points to a node of the store that is younger than its parent.
\<close>

definition wf_children :: "'a heap \<Rightarrow> bool" where
  "wf_children h =
     (\<forall>r<length h. \<forall>c\<in>snd ` set (child_nodes (h ! r)). r < c \<and> c < length h)"

text \<open>
  A root without untried actions whose only child has not been visited.
\<close>

definition zero_heap :: "nat heap" where
  "zero_heap =
     [\<lparr>parent = None, parent_action = None, child_nodes = [(0, 1)],
       untried_actions = [], wins = 0, visits = 0\<rparr>,
      \<lparr>parent = Some 0, parent_action = Some 0, child_nodes = [],
       untried_actions = [0], wins = 0, visits = 0\<rparr>]"

text \<open>
  The invariant of the search: parent and child references are well formed and in every
  node the wins are between 0 and the visits.
\<close>

definition tree_inv :: "'a heap \<Rightarrow> bool" where
  "tree_inv h =
     (wf_parents h \<and> wf_children h \<and> (\<forall>nd\<in>set h. 0 \<le> wins nd \<and> wins nd \<le> visits nd))"

text \<open>
  A game whose states are all terminal and still list a legal action, as a board may
  do for a position that is won while cells are free.
\<close>

definition term_board :: "(nat, nat) Board" where
  "term_board =
     \<lparr>is_ended = (\<lambda>s. True),
      legal_actions = (\<lambda>s. [0]),
      next_state = (\<lambda>s a. s),
      current_player = (\<lambda>s. 1),
      points_values = (\<lambda>s. Some [1 \<mapsto> 1, 2 \<mapsto> - 1])\<rparr>"

text \<open>
  The second invariant of the search: the \<open>parent\<close> field of every child of a node is
  that node, and no node has more visits than its parent.
\<close>

definition link_inv :: "'a heap \<Rightarrow> bool" where
  "link_inv h =
     ((\<forall>r<length h. \<forall>c\<in>snd ` set (child_nodes (h ! r)). parent (h ! c) = Some r) \<and>
      (\<forall>r<length h. \<forall>p. parent (h ! r) = Some p \<longrightarrow> visits (h ! r) \<le> visits (h ! p)))"

text \<open>
  A game of one move: the player 1 chooses between the action 0, which loses, and the
  action 1, which wins. The states 1 and 2 are the two ends of the game; every other state
  above 0 counts as ended and has no outcome.
\<close>

definition fork_board :: "(nat, nat) Board" where
  "fork_board =
     \<lparr>is_ended = (\<lambda>s. 0 < s),
      legal_actions = (\<lambda>s. if s = 0 then [0, 1] else []),
      next_state = (\<lambda>s a. if s = 0 then Suc a else s),
      current_player = (\<lambda>s. if s = 0 then 1 else 2),
      points_values = (\<lambda>s. if s = 1 then Some [1 \<mapsto> - 1, 2 \<mapsto> 1]
                            else if s = 2 then Some [1 \<mapsto> 1, 2 \<mapsto> - 1] else None)\<rparr>"

text \<open>
  The store after two passes of the search on \<open>fork_board\<close> from the state 0: both
  children of the root have been visited once.
\<close>

definition fork_heap :: "nat heap" where
  "fork_heap =
     [\<lparr>parent = None, parent_action = None, child_nodes = [(0, 1), (1, 2)],
       untried_actions = [], wins = 1, visits = 2\<rparr>,
      \<lparr>parent = Some 0, parent_action = Some 0, child_nodes = [],
       untried_actions = [], wins = 0, visits = 1\<rparr>,
      \<lparr>parent = Some 0, parent_action = Some 1, child_nodes = [],
       untried_actions = [], wins = 1, visits = 1\<rparr>]"

section \<open>Backpropagation\<close>

lemma backpropagate_None: "backpropagate h None won = Some h"
  by (subst backpropagate.simps) simp

lemma backpropagate_Some:
  "backpropagate h (Some r) won = backpropagate (h[r := bump won (h ! r)]) (parent (h ! r)) won"
  by (subst backpropagate.simps) (simp add: bump_def Let_def)

lemma on_path_le:
  assumes "on_path h r x" and "wf_parents h" and "r < length h"
  shows "x \<le> r"
  using assms
proof (induction rule: on_path.induct)
  case start
  show ?case by simp
next
  case (up x p)
  then have "x \<le> r" by simp
  with up.prems have "x < length h" by simp
  with up.hyps(2) up.prems(1) have "p < x" by (simp add: wf_parents_def)
  with \<open>x \<le> r\<close> show ?case by simp
qed

lemma on_path_root: "parent (h ! r) = None \<Longrightarrow> on_path h r x \<longleftrightarrow> x = r"
proof
  assume p: "parent (h ! r) = None" and "on_path h r x"
  from this(2) show "x = r" using p by (induction rule: on_path.induct) auto
qed (auto intro: on_path.start)

lemma on_path_trans: "on_path h p x \<Longrightarrow> on_path h r p \<Longrightarrow> on_path h r x"
  by (induction rule: on_path.induct) (auto intro: on_path.up)

lemma on_path_step:
  assumes "parent (h ! r) = Some p"
  shows "on_path h r x \<longleftrightarrow> x = r \<or> on_path h p x"
proof
  assume "on_path h r x"
  then show "x = r \<or> on_path h p x"
    using assms by (induction rule: on_path.induct) (auto intro: on_path.intros)
next
  assume "x = r \<or> on_path h p x"
  then show "on_path h r x"
    using assms on_path_trans[of h p x r] by (auto intro: on_path.intros)
qed

lemma on_path_cong:
  assumes "\<And>i. parent (h1 ! i) = parent (h ! i)"
  shows "on_path h1 r x = on_path h r x"
proof
  assume "on_path h1 r x"
  then show "on_path h r x"
    by (induction rule: on_path.induct) (auto intro: on_path.intros simp: assms)
next
  assume "on_path h r x"
  then show "on_path h1 r x"
    by (induction rule: on_path.induct) (auto intro: on_path.intros simp: assms[symmetric])
qed

lemma parent_bump [simp]: "parent (bump won n) = parent n"
  by (simp add: bump_def)

lemma on_path_reaches_root:
  "wf_parents h \<Longrightarrow> r < length h \<Longrightarrow> \<exists>x. on_path h r x \<and> parent (h ! x) = None"
proof (induction r rule: less_induct)
  case (less r)
  show ?case
  proof (cases "parent (h ! r)")
    case None
    then show ?thesis by (auto intro: on_path.start)
  next
    case (Some p)
    then have "p < r" using less.prems by (auto simp: wf_parents_def)
    with less obtain x where "on_path h p x" "parent (h ! x) = None" by fastforce
    then show ?thesis using on_path_step[OF Some] by auto
  qed
qed

lemma backpropagate_result:
  "wf_parents h \<Longrightarrow> r < length h \<Longrightarrow>
   \<exists>h'. backpropagate h (Some r) won = Some h' \<and> length h' = length h \<and>
     (\<forall>i<length h. h' ! i = (if on_path h r i then bump won (h ! i) else h ! i))"
proof (induction r arbitrary: h rule: less_induct)
  case (less r)
  let ?h1 = "h[r := bump won (h ! r)]"
  have par: "\<And>i. parent (?h1 ! i) = parent (h ! i)"
    using less.prems(2) by (case_tac "i = r") auto
  show ?case
  proof (cases "parent (h ! r)")
    case None
    then have "backpropagate h (Some r) won = Some ?h1"
      by (simp add: backpropagate_Some backpropagate_None)
    then show ?thesis using None less.prems by (auto simp: on_path_root)
  next
    case (Some p)
    then have pr: "p < r" using less.prems by (auto simp: wf_parents_def)
    have wf1: "wf_parents ?h1" using less.prems(1) par by (simp add: wf_parents_def)
    from less.IH[OF pr wf1] pr less.prems(2)
    obtain h' where h': "backpropagate ?h1 (Some p) won = Some h'" "length h' = length h"
      "\<forall>i<length h. h' ! i = (if on_path ?h1 p i then bump won (?h1 ! i) else ?h1 ! i)"
      by auto
    have op: "\<And>i. on_path ?h1 p i = on_path h p i" by (rule on_path_cong) (rule par)
    have notr: "\<not> on_path h p r"
      using on_path_le[of h p r] less.prems pr by auto
    have "backpropagate h (Some r) won = Some h'"
      using h'(1) Some by (simp add: backpropagate_Some)
    moreover have "\<forall>i<length h. h' ! i = (if on_path h r i then bump won (h ! i) else h ! i)"
    proof (intro allI impI)
      fix i assume i: "i < length h"
      show "h' ! i = (if on_path h r i then bump won (h ! i) else h ! i)"
      proof (cases "i = r")
        case True
        then show ?thesis using h'(3) i notr op by (simp add: on_path.start)
      next
        case False
        then show ?thesis using h'(3) i op on_path_step[OF Some, of i] by simp
      qed
    qed
    ultimately show ?thesis using h'(2) by simp
  qed
qed

text \<open>
  Claim C7. In a store where every parent reference points to an older node,
  backpropagation from a node returns; the new store has the same nodes; every node on
  the path from the node through the parent references, which ends at a root, has its
  visits incremented by 1 and its wins incremented by 1 exactly when the outcome is a
  win, the same outcome for the whole path; every other node is unchanged.
\<close>

theorem backpropagate_updates_path:
  assumes "wf_parents h" and "node < length h"
  shows "\<exists>h'. backpropagate h (Some node) won = Some h' \<and> length h' = length h \<and>
     (\<exists>root. on_path h node root \<and> parent (h ! root) = None) \<and>
     (\<forall>i<length h.
        h' ! i = (if on_path h node i
                  then (h ! i)\<lparr>visits := visits (h ! i) + 1,
                               wins := (if won then wins (h ! i) + 1 else wins (h ! i))\<rparr>
                  else h ! i))"
  using backpropagate_result[OF assms, of won] on_path_reaches_root[OF assms]
  unfolding bump_def by blast

lemma ex_heap_wf: "wf_parents ex_heap"
  by (simp add: wf_parents_def ex_heap_def less_Suc_eq numeral_nat)

theorem backpropagate_updates_path_witness:
  "wf_parents ex_heap \<and> 3 < length ex_heap \<and>
   backpropagate ex_heap (Some 3) True = Some
     [\<lparr>parent = None, parent_action = None, child_nodes = [(0, 1), (1, 2)],
       untried_actions = [], wins = 2, visits = 3\<rparr>,
      \<lparr>parent = Some 0, parent_action = Some 0, child_nodes = [(0, 3)],
       untried_actions = [1], wins = 2, visits = 2\<rparr>,
      \<lparr>parent = Some 0, parent_action = Some 1, child_nodes = [],
       untried_actions = [0, 1], wins = 0, visits = 1\<rparr>,
      \<lparr>parent = Some 1, parent_action = Some 0, child_nodes = [],
       untried_actions = [0, 1], wins = 1, visits = 1\<rparr>]"
proof -
  have len: "3 < length ex_heap" by (simp add: ex_heap_def)
  have p3: "parent (ex_heap ! 3) = Some 1" by (simp add: ex_heap_def)
  have p1: "parent (ex_heap ! 1) = Some 0" by (simp add: ex_heap_def)
  have p0: "parent (ex_heap ! 0) = None" by (simp add: ex_heap_def)
  have path: "\<And>x. on_path ex_heap 3 x \<longleftrightarrow> x = 3 \<or> x = 1 \<or> x = 0"
    by (simp only: on_path_step[OF p3] on_path_step[OF p1] on_path_root[OF p0])
  from backpropagate_updates_path[OF ex_heap_wf len, of True]
  obtain h' where h': "backpropagate ex_heap (Some 3) True = Some h'"
    "length h' = length ex_heap"
    "\<forall>i<length ex_heap.
        h' ! i = (if on_path ex_heap 3 i
                  then (ex_heap ! i)\<lparr>visits := visits (ex_heap ! i) + 1,
                               wins := (if True then wins (ex_heap ! i) + 1 else wins (ex_heap ! i))\<rparr>
                  else ex_heap ! i)"
    by blast
  have "h' ! 0 = (ex_heap ! 0)\<lparr>visits := visits (ex_heap ! 0) + 1, wins := wins (ex_heap ! 0) + 1\<rparr>"
    using h'(3) path[of 0] by (simp add: ex_heap_def)
  moreover have "h' ! 1 = (ex_heap ! 1)\<lparr>visits := visits (ex_heap ! 1) + 1, wins := wins (ex_heap ! 1) + 1\<rparr>"
    using h'(3) path[of 1] by (simp add: ex_heap_def)
  moreover have "h' ! 2 = ex_heap ! 2"
    using h'(3) path[of 2] by (simp add: ex_heap_def)
  moreover have "h' ! 3 = (ex_heap ! 3)\<lparr>visits := visits (ex_heap ! 3) + 1, wins := wins (ex_heap ! 3) + 1\<rparr>"
    using h'(3) path[of 3] by (simp add: ex_heap_def)
  ultimately have "h' = [h' ! 0, h' ! 1, h' ! 2, h' ! 3] \<Longrightarrow> ?thesis"
    using h'(1) len ex_heap_wf by (simp add: ex_heap_def)
  moreover have "h' = [h' ! 0, h' ! 1, h' ! 2, h' ! 3]"
    using h'(2) by (simp add: ex_heap_def list_eq_iff_nth_eq less_Suc_eq numeral_nat)
  ultimately show ?thesis .
qed

section \<open>Selection by confidence bound and the final extraction\<close>

lemma max_loop_total:
  "\<forall>x\<in>set xs. \<exists>k. key x = Inr k \<Longrightarrow> \<exists>r. max_loop gt key best bk xs = Inr r"
  by (induction xs arbitrary: best bk) auto

lemma py_max_total:
  "xs \<noteq> [] \<Longrightarrow> \<forall>x\<in>set xs. \<exists>k. key x = Inr k \<Longrightarrow> \<exists>r. py_max gt key xs = Inr r"
  by (cases xs) (auto simp: py_max_def max_loop_total)

lemma max_loop_max:
  assumes irrefl: "\<And>a. \<not> gt a a"
    and tr: "\<And>a b c. gt a b \<Longrightarrow> \<not> gt c b \<Longrightarrow> \<not> gt c a"
  shows "key best = Inr bk \<Longrightarrow> \<forall>y\<in>S. \<exists>ky. key y = Inr ky \<and> \<not> gt ky bk \<Longrightarrow>
     max_loop gt key best bk xs = Inr r \<Longrightarrow>
     r \<in> set (best # xs) \<and>
     (\<exists>kr. key r = Inr kr \<and> (\<forall>y\<in>S \<union> set (best # xs). \<exists>ky. key y = Inr ky \<and> \<not> gt ky kr))"
proof (induction xs arbitrary: best bk S)
  case Nil
  then show ?case using irrefl by auto
next
  case (Cons x xs)
  from Cons.prems(3) obtain k where k: "key x = Inr k"
    by (cases "key x") auto
  show ?case
  proof (cases "gt k bk")
    case True
    with Cons.prems(3) k have res: "max_loop gt key x k xs = Inr r" by simp
    have "\<forall>y\<in>S \<union> {best}. \<exists>ky. key y = Inr ky \<and> \<not> gt ky k"
      using Cons.prems(1,2) tr[OF True] irrefl by auto
    from Cons.IH[OF k this res] show ?thesis by auto
  next
    case False
    with Cons.prems(3) k have res: "max_loop gt key best bk xs = Inr r" by simp
    have "\<forall>y\<in>S \<union> {x}. \<exists>ky. key y = Inr ky \<and> \<not> gt ky bk"
      using Cons.prems(2) k False by auto
    from Cons.IH[OF Cons.prems(1) this res] show ?thesis by auto
  qed
qed

lemma py_max_max:
  assumes irrefl: "\<And>a. \<not> gt a a"
    and tr: "\<And>a b c. gt a b \<Longrightarrow> \<not> gt c b \<Longrightarrow> \<not> gt c a"
    and res: "py_max gt key xs = Inr r"
  shows "r \<in> set xs \<and>
     (\<exists>kr. key r = Inr kr \<and> (\<forall>y\<in>set xs. \<exists>ky. key y = Inr ky \<and> \<not> gt ky kr))"
proof (cases xs)
  case Nil
  with res show ?thesis by (simp add: py_max_def)
next
  case (Cons x rest)
  with res obtain k where k: "key x = Inr k" and ml: "max_loop gt key x k rest = Inr r"
    by (cases "key x") (auto simp: py_max_def)
  have "\<forall>y\<in>{}. \<exists>ky. key y = Inr ky \<and> \<not> gt ky k" by simp
  from max_loop_max[of gt key x k "{}" rest r, OF irrefl tr k this ml] Cons
  show ?thesis by auto
qed

lemma float_gt_irrefl: "\<not> float_gt a a"
  by (cases a) auto

lemma float_gt_tr: "float_gt a b \<Longrightarrow> \<not> float_gt c b \<Longrightarrow> \<not> float_gt c a"
  by (cases a; cases b; cases c) auto

lemma ucb_select_max:
  assumes "ucb_select h node bid = Inr r"
  shows "r \<in> snd ` set (child_nodes (h ! node)) \<and>
     (\<exists>kr. ucb h r bid = Inr kr \<and>
        (\<forall>y\<in>snd ` set (child_nodes (h ! node)). \<exists>ky. ucb h y bid = Inr ky \<and> \<not> float_gt ky kr))"
  using py_max_max[of float_gt "\<lambda>x. ucb h x bid" "map snd (child_nodes (h ! node))" r,
      OF float_gt_irrefl float_gt_tr] assms
  by (simp add: ucb_select_def)

lemma ucb_PosInf: "ucb h c bid = Inr PosInf \<longleftrightarrow> visits (h ! c) = 0"
  by (auto simp: ucb_def Let_def split: option.splits)

lemma ucb_formula:
  assumes "0 < visits (h ! c)" and "parent (h ! c) = Some p" and "1 \<le> visits (h ! p)"
  shows "ucb h c bid = Inr (Fin ((if bid = 1 then 1 else - 1)
            * (real_of_int (wins (h ! c)) / real_of_int (visits (h ! c)))
          + 2 * sqrt (ln (real_of_int (visits (h ! p))) / real_of_int (visits (h ! c)))))"
proof -
  have "0 \<le> ln (real_of_int (visits (h ! p)))" using assms(3) by simp
  then have "\<not> ln (real_of_int (visits (h ! p))) / real_of_int (visits (h ! c)) < 0"
    using assms(1) by (simp add: divide_less_0_iff)
  then show ?thesis using assms by (simp add: ucb_def Let_def explore_faction_def)
qed

lemma ucb_total:
  assumes "visits (h ! c) \<noteq> 0 \<longrightarrow>
     0 < visits (h ! c) \<and> (\<exists>p. parent (h ! c) = Some p \<and> 0 < visits (h ! p))"
  shows "\<exists>k. ucb h c bid = Inr k"
proof (cases "visits (h ! c) = 0")
  case True
  then show ?thesis by (simp add: ucb_def)
next
  case False
  with assms obtain p where "0 < visits (h ! c)" "parent (h ! c) = Some p" "1 \<le> visits (h ! p)"
    by auto
  from ucb_formula[OF this] show ?thesis by blast
qed

text \<open>
  Claim C3. When a node has a child without visits, every child that the
  confidence-bound selection returns is a child of the node without visits: the score of
  such a child is infinite and the score of a visited child is finite. The selection
  returns a child whenever every visited child has positive visits and a parent with
  positive visits, as in every store that the search builds.
\<close>

theorem ucb_select_zero_visit_priority:
  assumes "\<exists>z\<in>snd ` set (child_nodes (h ! node)). visits (h ! z) = 0"
  shows "(\<forall>c. ucb_select h node bid = Inr c \<longrightarrow>
            c \<in> snd ` set (child_nodes (h ! node)) \<and> visits (h ! c) = 0) \<and>
         ((\<forall>c\<in>snd ` set (child_nodes (h ! node)). visits (h ! c) \<noteq> 0 \<longrightarrow>
              0 < visits (h ! c) \<and> (\<exists>p. parent (h ! c) = Some p \<and> 0 < visits (h ! p))) \<longrightarrow>
          (\<exists>c. ucb_select h node bid = Inr c))"
proof (intro conjI allI impI)
  fix c assume sel: "ucb_select h node bid = Inr c"
  from ucb_select_max[OF sel] obtain kr where
    c: "c \<in> snd ` set (child_nodes (h ! node))" and kr: "ucb h c bid = Inr kr"
    and mx: "\<forall>y\<in>snd ` set (child_nodes (h ! node)). \<exists>ky. ucb h y bid = Inr ky \<and> \<not> float_gt ky kr"
    by blast
  from assms obtain z where z: "z \<in> snd ` set (child_nodes (h ! node))" "visits (h ! z) = 0"
    by blast
  then have "ucb h z bid = Inr PosInf" by (simp add: ucb_PosInf)
  with mx z(1) have "\<not> float_gt PosInf kr" by fastforce
  then have "kr = PosInf" by (cases kr) auto
  with kr show "visits (h ! c) = 0" by (simp add: ucb_PosInf)
  from c show "c \<in> snd ` set (child_nodes (h ! node))" .
next
  assume wf: "\<forall>c\<in>snd ` set (child_nodes (h ! node)). visits (h ! c) \<noteq> 0 \<longrightarrow>
              0 < visits (h ! c) \<and> (\<exists>p. parent (h ! c) = Some p \<and> 0 < visits (h ! p))"
  from assms have ne: "map snd (child_nodes (h ! node)) \<noteq> []" by auto
  have "\<forall>x\<in>set (map snd (child_nodes (h ! node))). \<exists>k. ucb h x bid = Inr k"
    using wf ucb_total[of h _ bid] by auto
  from py_max_total[OF ne this, of float_gt]
  show "\<exists>c. ucb_select h node bid = Inr c" by (simp add: ucb_select_def)
qed

theorem ucb_select_zero_visit_priority_witness:
  "(\<exists>z\<in>snd ` set (child_nodes (mix_heap ! 0)). visits (mix_heap ! z) = 0) \<and>
   list_all (\<lambda>c. visits (mix_heap ! c) \<noteq> 0 \<longrightarrow>
      0 < visits (mix_heap ! c) \<and> (\<exists>p. parent (mix_heap ! c) = Some p \<and> 0 < visits (mix_heap ! p)))
     (map snd (child_nodes (mix_heap ! 0))) \<and>
   ucb_select mix_heap 0 1 = Inr 2"
proof -
  have z: "\<exists>z\<in>snd ` set (child_nodes (mix_heap ! 0)). visits (mix_heap ! z) = 0"
    by (simp add: mix_heap_def)
  have wf: "\<forall>c\<in>snd ` set (child_nodes (mix_heap ! 0)). visits (mix_heap ! c) \<noteq> 0 \<longrightarrow>
      0 < visits (mix_heap ! c) \<and> (\<exists>p. parent (mix_heap ! c) = Some p \<and> 0 < visits (mix_heap ! p))"
    by (simp add: mix_heap_def)
  from ucb_select_zero_visit_priority[OF z, of 1] wf
  obtain c where c: "ucb_select mix_heap 0 1 = Inr c"
    "c \<in> snd ` set (child_nodes (mix_heap ! 0))" "visits (mix_heap ! c) = 0"
    by blast
  from c(2,3) have "c = 2" by (auto simp: mix_heap_def)
  moreover from wf have "list_all (\<lambda>c. visits (mix_heap ! c) \<noteq> 0 \<longrightarrow>
      0 < visits (mix_heap ! c) \<and> (\<exists>p. parent (mix_heap ! c) = Some p \<and> 0 < visits (mix_heap ! p)))
     (map snd (child_nodes (mix_heap ! 0)))"
    by (simp add: list_all_iff)
  ultimately show ?thesis using c(1) z by blast
qed

lemma child_visits_total:
  "\<forall>x\<in>set (map fst cn). \<exists>k. child_visits h cn x = Inr k"
proof
  fix x assume "x \<in> set (map fst cn)"
  then obtain c where "map_of cn x = Some c"
    by (cases "map_of cn x") (auto simp: map_of_eq_None_iff)
  then show "\<exists>k. child_visits h cn x = Inr k" by (simp add: child_visits_def)
qed

lemma get_best_action_result:
  assumes "child_nodes (h ! rt) \<noteq> []"
  shows "\<exists>a c. get_best_action h rt = Inr (Some a) \<and>
           map_of (child_nodes (h ! rt)) a = Some c \<and>
           (\<forall>a' c'. map_of (child_nodes (h ! rt)) a' = Some c' \<longrightarrow>
                     visits (h ! c') \<le> visits (h ! c))"
proof -
  let ?cn = "child_nodes (h ! rt)"
  let ?gt = "\<lambda>a b::int. b < a"
  from assms have ne: "map fst ?cn \<noteq> []" by simp
  from py_max_total[OF ne child_visits_total, of ?gt h]
  obtain a where a: "py_max ?gt (child_visits h ?cn) (map fst ?cn) = Inr a" by blast
  have "a \<in> set (map fst ?cn) \<and>
     (\<exists>kr. child_visits h ?cn a = Inr kr \<and>
        (\<forall>y\<in>set (map fst ?cn). \<exists>ky. child_visits h ?cn y = Inr ky \<and> \<not> kr < ky))"
    by (rule py_max_max[where gt = ?gt, OF _ _ a]) simp_all
  then obtain kr where ain: "a \<in> set (map fst ?cn)" and kr: "child_visits h ?cn a = Inr kr"
    and mx: "\<forall>y\<in>set (map fst ?cn). \<exists>ky. child_visits h ?cn y = Inr ky \<and> \<not> kr < ky"
    by blast
  from kr obtain c where c: "map_of ?cn a = Some c" "kr = visits (h ! c)"
    by (auto simp: child_visits_def split: option.splits)
  have "\<forall>a' c'. map_of ?cn a' = Some c' \<longrightarrow> visits (h ! c') \<le> visits (h ! c)"
  proof (intro allI impI)
    fix a' c' assume m: "map_of ?cn a' = Some c'"
    then have "a' \<in> set (map fst ?cn)" by (auto dest: map_of_SomeD intro: rev_image_eqI)
    with mx obtain ky where "child_visits h ?cn a' = Inr ky" "\<not> kr < ky" by blast
    with m c(2) show "visits (h ! c') \<le> visits (h ! c)" by (simp add: child_visits_def)
  qed
  moreover have "get_best_action h rt = Inr (Some a)"
    using assms a by (simp add: get_best_action_def)
  ultimately show ?thesis using c(1) by blast
qed

text \<open>
  Claim C8. Without children the final extraction returns None. Otherwise it returns
  an action of the root whose child has at least the visits of every child of the root,
  whatever the wins are.
\<close>

theorem get_best_action_most_visited:
  "(child_nodes (h ! rt) = [] \<longrightarrow> get_best_action h rt = Inr None) \<and>
   (child_nodes (h ! rt) \<noteq> [] \<longrightarrow>
      (\<exists>a c. get_best_action h rt = Inr (Some a) \<and>
           map_of (child_nodes (h ! rt)) a = Some c \<and>
           (\<forall>a' c'. map_of (child_nodes (h ! rt)) a' = Some c' \<longrightarrow>
                     visits (h ! c') \<le> visits (h ! c))))"
  using get_best_action_result[of h rt] by (simp add: get_best_action_def)

theorem get_best_action_most_visited_witness:
  "child_nodes (mix_heap ! 0) \<noteq> [] \<and> get_best_action mix_heap 0 = Inr (Some 0) \<and>
   child_nodes ([new_MCTSNode None None [0::nat]] ! 0) = [] \<and>
   get_best_action [new_MCTSNode None None [0::nat]] 0 = Inr None"
proof -
  have ne: "child_nodes (mix_heap ! 0) \<noteq> []" by (simp add: mix_heap_def)
  with get_best_action_most_visited[of mix_heap 0]
  obtain a c where ac: "get_best_action mix_heap 0 = Inr (Some a)"
    "map_of (child_nodes (mix_heap ! 0)) a = Some c"
    "\<forall>a' c'. map_of (child_nodes (mix_heap ! 0)) a' = Some c' \<longrightarrow>
                     visits (mix_heap ! c') \<le> visits (mix_heap ! c)"
    by blast
  have "map_of (child_nodes (mix_heap ! 0)) 0 = Some 1" by (simp add: mix_heap_def)
  with ac(3) have "visits (mix_heap ! 1) \<le> visits (mix_heap ! c)" by blast
  then have "2 \<le> visits (mix_heap ! c)" by (simp add: mix_heap_def)
  moreover from ac(2) have "c = 1 \<or> c = 2 \<or> c = 3"
    by (auto simp: mix_heap_def split: if_splits)
  ultimately have "c = 1" by (auto simp: mix_heap_def)
  with ac(2) have "a = 0" by (auto simp: mix_heap_def split: if_splits)
  have e: "child_nodes ([new_MCTSNode None None [0::nat]] ! 0) = []"
    by (simp add: new_MCTSNode_def)
  with get_best_action_most_visited[of "[new_MCTSNode None None [0::nat]]" 0]
  have "get_best_action [new_MCTSNode None None [0::nat]] 0 = Inr None" by blast
  with ne ac(1) \<open>a = 0\<close> e show ?thesis by blast
qed


lemma turn_heap_reached:
  "think_loop 2 line_board 0 1 0 [new_MCTSNode None None (legal_actions line_board 0)] zero_rng
     = Some (Inr (turn_heap, zero_rng))"
  apply (simp add: numeral_2_eq_2 think_step_def traverse_nodes.simps rollout.simps backpropagate.simps expand_leaf_def choice_def
      is_win_def line_board_def new_MCTSNode_def zero_rng_def Let_def ucb_select_def py_max_def ucb_def
      turn_heap_def numeral_3_eq_3)
  done

text \<open>
  Claim C1 as stated fails. On \<open>line_board\<close> the node 1 stands for a state where
  the player 2 moves and the node 2 for a state where the player 1 moves; the store
  \<open>turn_heap\<close> is the one the search builds in two passes. For the bot identity 1 both
  scores carry the exploitation term 1 with the same positive sign.
\<close>

theorem ucb_sign_per_node_counterexample:
  "think_loop 2 line_board 0 1 0 [new_MCTSNode None None (legal_actions line_board 0)] zero_rng
     = Some (Inr (turn_heap, zero_rng)) \<and>
   current_player line_board (next_state line_board 0 0) = 2 \<and>
   current_player line_board (next_state line_board (next_state line_board 0 0) 0) = 1 \<and>
   ucb turn_heap 1 1 = Inr (Fin (1 + 2 * sqrt (ln 2 / 2))) \<and>
   ucb turn_heap 2 1 = Inr (Fin (1 + 2 * sqrt (ln 2)))"
proof -
  have a: "ucb turn_heap 1 1 = Inr (Fin (1 + 2 * sqrt (ln 2 / 2)))"
    using ucb_formula[of turn_heap 1 0 1] by (simp add: turn_heap_def)
  have b: "ucb turn_heap 2 1 = Inr (Fin (1 + 2 * sqrt (ln 2)))"
    using ucb_formula[of turn_heap 2 1 1] by (simp add: turn_heap_def)
  show ?thesis using a b turn_heap_reached by (simp add: line_board_def)
qed

section \<open>Visit-proportional selection\<close>


lemma roulette_loop_total:
  "ps \<noteq> [] \<Longrightarrow> t \<le> c + sum_list (map snd ps) \<Longrightarrow>
     \<exists>a\<in>fst ` set ps. roulette_loop t c ps = Some a"
proof (induction ps arbitrary: c)
  case Nil
  then show ?case by simp
next
  case (Cons x ps)
  obtain action prob where x: "x = (action, prob)" by (cases x)
  show ?case
  proof (cases "t \<le> c + prob")
    case True
    with x show ?thesis by simp
  next
    case False
    with Cons.prems x have "ps \<noteq> []" by auto
    moreover from Cons.prems x have "t \<le> (c + prob) + sum_list (map snd ps)"
      by (simp add: add.assoc)
    ultimately obtain a where "a \<in> fst ` set ps" "roulette_loop t (c + prob) ps = Some a"
      using Cons.IH by blast
    with False x show ?thesis by auto
  qed
qed

lemma sum_visits_div:
  "sum_list (map (\<lambda>(action, child). real_of_int (visits (h ! child)) / T) cn) =
     real_of_int (sum_list (map (\<lambda>child. visits (h ! child)) (map snd cn))) / T"
  by (induction cn) (auto simp: add_divide_distrib)

lemma probabilities_sum:
  assumes "total_visits h cn \<noteq> 0"
  shows "\<exists>ps. probabilities h cn = Inr ps \<and> map fst ps = map fst cn \<and>
           sum_list (map snd ps) = 1"
proof -
  define T where "T = real_of_int (total_visits h cn)"
  define ps where "ps = map (\<lambda>(action, child).
      (action, real_of_int (visits (h ! child)) / T)) cn"
  have T: "T \<noteq> 0" using assms by (simp add: T_def)
  have p: "probabilities h cn = Inr ps" using assms by (simp add: probabilities_def ps_def T_def)
  have f: "map fst ps = map fst cn" unfolding ps_def by (induction cn) auto
  have "map snd ps = map (\<lambda>(action, child). real_of_int (visits (h ! child)) / T) cn"
    unfolding ps_def by (induction cn) auto
  then have "sum_list (map snd ps) =
      real_of_int (sum_list (map (\<lambda>child. visits (h ! child)) (map snd cn))) / T"
    by (simp only: sum_visits_div)
  also have "\<dots> = T / T" by (simp only: T_def total_visits_def)
  also have "\<dots> = 1" using T by simp
  finally show ?thesis using p f by blast
qed

lemma sum_list_pos_int:
  "\<forall>x\<in>set xs. (0::int) \<le> x \<Longrightarrow> \<exists>x\<in>set xs. x \<noteq> 0 \<Longrightarrow> 0 < sum_list xs"
proof (induction xs)
  case Nil
  then show ?case by simp
next
  case (Cons x xs)
  have nn: "0 \<le> sum_list xs" using Cons.prems(1) by (simp add: sum_list_nonneg)
  show ?case
  proof (cases "x = 0")
    case True
    with Cons show ?thesis by auto
  next
    case False
    with Cons.prems(1) have "0 < x" by simp
    with nn show ?thesis by simp
  qed
qed

lemma total_visits_pos:
  assumes "\<forall>c\<in>snd ` set cn. 0 \<le> visits (h ! c)"
    and "\<not> list_all (\<lambda>child. visits (h ! child) = 0) (map snd cn)"
  shows "0 < total_visits h cn"
  unfolding total_visits_def
  using assms by (intro sum_list_pos_int) (auto simp: list_all_iff)

lemma roulette_wheel_selection_eq:
  "roulette_wheel_selection ps g = (roulette_loop (shd (snd g)) 0 ps, (fst g, stl (snd g)))"
  by (simp add: roulette_wheel_selection_def random_def)



text \<open>
  Claim C10. Over the real numbers, on a dictionary of probabilities that is not empty
  and sums to 1, with a threshold in [0, 1), the selection returns a key of the
  dictionary, so the loop never ends without a value. The dictionary that
  \<^verbatim>\<open>traverse_nodes\<close> builds past its guard, from children with visits that are not
  negative and not all 0, is not empty, has the keys of the children and sums to 1.
\<close>

theorem roulette_returns_key:
  "(ps \<noteq> [] \<and> sum_list (map snd ps) = 1 \<and> 0 \<le> shd (snd g) \<and> shd (snd g) < 1 \<longrightarrow>
      (\<exists>a\<in>fst ` set ps. fst (roulette_wheel_selection ps g) = Some a)) \<and>
   (cn \<noteq> [] \<and> (\<forall>c\<in>snd ` set cn. 0 \<le> visits (h ! c)) \<and>
    \<not> list_all (\<lambda>child. visits (h ! child) = 0) (map snd cn) \<longrightarrow>
      (\<exists>qs. probabilities h cn = Inr qs \<and> qs \<noteq> [] \<and> map fst qs = map fst cn \<and>
         sum_list (map snd qs) = 1))"
proof (intro conjI impI)
  assume "ps \<noteq> [] \<and> sum_list (map snd ps) = 1 \<and> 0 \<le> shd (snd g) \<and> shd (snd g) < 1"
  then have "ps \<noteq> []" "shd (snd g) \<le> 0 + sum_list (map snd ps)" by simp_all
  from roulette_loop_total[OF this]
  show "\<exists>a\<in>fst ` set ps. fst (roulette_wheel_selection ps g) = Some a"
    by (simp add: roulette_wheel_selection_eq)
next
  assume a: "cn \<noteq> [] \<and> (\<forall>c\<in>snd ` set cn. 0 \<le> visits (h ! c)) \<and>
    \<not> list_all (\<lambda>child. visits (h ! child) = 0) (map snd cn)"
  then have "0 < total_visits h cn" using total_visits_pos[of cn h] by blast
  then have "total_visits h cn \<noteq> 0" by simp
  from probabilities_sum[OF this] obtain qs where
    qs: "probabilities h cn = Inr qs" "map fst qs = map fst cn" "sum_list (map snd qs) = 1"
    by blast
  from qs(2) a have "qs \<noteq> []" by auto
  with qs show "\<exists>qs. probabilities h cn = Inr qs \<and> qs \<noteq> [] \<and> map fst qs = map fst cn \<and>
         sum_list (map snd qs) = 1" by blast
qed

theorem roulette_returns_key_witness:
  "child_nodes (wheel_heap ! 0) \<noteq> [] \<and>
   list_all (\<lambda>c. 0 \<le> visits (wheel_heap ! c)) (map snd (child_nodes (wheel_heap ! 0))) \<and>
   \<not> list_all (\<lambda>child. visits (wheel_heap ! child) = 0) (map snd (child_nodes (wheel_heap ! 0))) \<and>
   (\<exists>qs. probabilities wheel_heap (child_nodes (wheel_heap ! 0)) = Inr qs \<and> qs \<noteq> [] \<and>
      sum_list (map snd qs) = 1 \<and> (0::real) \<le> 999 / 1000 \<and> (999 / 1000 :: real) < 1 \<and>
      (\<exists>a\<in>fst ` set qs. fst (roulette_wheel_selection qs (sconst 0, sconst (999 / 1000))) = Some a))"
proof -
  let ?cn = "child_nodes (wheel_heap ! 0)"
  let ?g = "(sconst (0::nat), sconst (999 / 1000 :: real))"
  have 1: "?cn \<noteq> []" by (simp add: wheel_heap_def)
  have 2: "\<forall>c\<in>snd ` set ?cn. 0 \<le> visits (wheel_heap ! c)" by (simp add: wheel_heap_def)
  have 3: "\<not> list_all (\<lambda>child. visits (wheel_heap ! child) = 0) (map snd ?cn)"
    by (simp add: wheel_heap_def)
  have 4: "list_all (\<lambda>c. 0 \<le> visits (wheel_heap ! c)) (map snd ?cn)"
    by (simp add: wheel_heap_def)
  note claim_thm = roulette_returns_key
  have "\<exists>qs. probabilities wheel_heap ?cn = Inr qs \<and> qs \<noteq> [] \<and> map fst qs = map fst ?cn \<and>
         sum_list (map snd qs) = 1"
    by (rule mp[OF conjunct2[OF claim_thm[of "[]" ?g ?cn wheel_heap]]]) (intro conjI 1 2 3)
  then obtain qs where qs: "probabilities wheel_heap ?cn = Inr qs" "qs \<noteq> []"
    "sum_list (map snd qs) = 1" by (elim exE conjE)
  have t: "(0::real) \<le> 999 / 1000" "(999 / 1000 :: real) < 1" by simp_all
  have "\<exists>a\<in>fst ` set qs. fst (roulette_wheel_selection qs ?g) = Some a"
    by (rule mp[OF conjunct1[OF claim_thm[of qs ?g "[]" wheel_heap]]]) (simp add: qs)
  with qs t have "\<exists>qs. probabilities wheel_heap ?cn = Inr qs \<and> qs \<noteq> [] \<and>
      sum_list (map snd qs) = 1 \<and> (0::real) \<le> 999 / 1000 \<and> (999 / 1000 :: real) < 1 \<and>
      (\<exists>a\<in>fst ` set qs. fst (roulette_wheel_selection qs ?g) = Some a)"
    by (intro exI[of _ qs] conjI)
  with 1 4 3 show ?thesis by (intro conjI)
qed

section \<open>Expansion\<close>

lemma choice_member:
  "xs \<noteq> [] \<Longrightarrow> \<exists>x g'. choice xs g = Inr (x, g') \<and> x \<in> set xs"
  by (simp add: choice_def)

lemma expand_leaf_noop:
  "untried_actions (h ! node) = [] \<Longrightarrow> expand_leaf h node board state g = Inr (h, node, state, g)"
  by (simp add: expand_leaf_def)

lemma expand_leaf_result:
  assumes "untried_actions (h ! node) \<noteq> []"
  shows "\<exists>action g'. choice (untried_actions (h ! node)) g = Inr (action, g') \<and>
     action \<in> set (untried_actions (h ! node)) \<and>
     expand_leaf h node board state g =
       Inr (h[node := (h ! node)\<lparr>untried_actions := remove1 action (untried_actions (h ! node)),
                                child_nodes := AList.update action (length h) (child_nodes (h ! node))\<rparr>]
              @ [new_MCTSNode (Some node) (Some action)
                   (legal_actions board (next_state board state action))],
            length h, next_state board state action, g')"
proof -
  from choice_member[OF assms, of g] obtain action g' where
    c: "choice (untried_actions (h ! node)) g = Inr (action, g')"
      "action \<in> set (untried_actions (h ! node))" by blast
  with assms show ?thesis by (simp add: expand_leaf_def Let_def)
qed

text \<open>
  Claim C6. On a node with an untried action, expansion draws one of these actions,
  removes one occurrence of it from the list, which gets shorter by 1, allocates one new
  node, whose action list is the legal actions of the state after the action, records it
  as the child of the node under that action and returns it with that state. The
  children under other actions, the visits, the wins and the parent link of the node are
  unchanged, and so is every other node. On a node without untried actions expansion
  returns the store, the node, the state and the random source as they are.
\<close>

theorem expand_leaf_frame:
  "(untried_actions (h ! node) \<noteq> [] \<and> node < length h \<longrightarrow>
      (\<exists>action g' h'.
         action \<in> set (untried_actions (h ! node)) \<and>
         expand_leaf h node board state g = Inr (h', length h, next_state board state action, g') \<and>
         length h' = Suc (length h) \<and>
         h' ! length h = new_MCTSNode (Some node) (Some action)
                           (legal_actions board (next_state board state action)) \<and>
         untried_actions (h' ! node) = remove1 action (untried_actions (h ! node)) \<and>
         Suc (length (untried_actions (h' ! node))) = length (untried_actions (h ! node)) \<and>
         child_nodes (h' ! node) = AList.update action (length h) (child_nodes (h ! node)) \<and>
         map_of (child_nodes (h' ! node)) action = Some (length h) \<and>
         (\<forall>a. a \<noteq> action \<longrightarrow>
            map_of (child_nodes (h' ! node)) a = map_of (child_nodes (h ! node)) a) \<and>
         visits (h' ! node) = visits (h ! node) \<and> wins (h' ! node) = wins (h ! node) \<and>
         parent (h' ! node) = parent (h ! node) \<and>
         parent_action (h' ! node) = parent_action (h ! node) \<and>
         (\<forall>i<length h. i \<noteq> node \<longrightarrow> h' ! i = h ! i))) \<and>
   (untried_actions (h ! node) = [] \<longrightarrow>
      expand_leaf h node board state g = Inr (h, node, state, g))"
proof (intro conjI impI)
  assume a: "untried_actions (h ! node) \<noteq> [] \<and> node < length h"
  then have ne: "untried_actions (h ! node) \<noteq> []" and lt: "node < length h" by simp_all
  from expand_leaf_result[OF ne, of g board state] obtain action g' where
    r: "action \<in> set (untried_actions (h ! node))"
      "expand_leaf h node board state g =
       Inr (h[node := (h ! node)\<lparr>untried_actions := remove1 action (untried_actions (h ! node)),
                                child_nodes := AList.update action (length h) (child_nodes (h ! node))\<rparr>]
              @ [new_MCTSNode (Some node) (Some action)
                   (legal_actions board (next_state board state action))],
            length h, next_state board state action, g')" by blast
  define h' where "h' = h[node := (h ! node)\<lparr>untried_actions := remove1 action (untried_actions (h ! node)),
                                child_nodes := AList.update action (length h) (child_nodes (h ! node))\<rparr>]
              @ [new_MCTSNode (Some node) (Some action)
                   (legal_actions board (next_state board state action))]"
  have n: "h' ! node = (h ! node)\<lparr>untried_actions := remove1 action (untried_actions (h ! node)),
                                child_nodes := AList.update action (length h) (child_nodes (h ! node))\<rparr>"
    using lt by (simp add: h'_def nth_append)
  have "length h' = Suc (length h)" by (simp add: h'_def)
  moreover have "h' ! length h = new_MCTSNode (Some node) (Some action)
                           (legal_actions board (next_state board state action))"
    by (simp add: h'_def nth_append)
  moreover have "Suc (length (untried_actions (h' ! node))) = length (untried_actions (h ! node))"
    using r(1) ne by (simp add: n length_remove1)
  moreover have "\<forall>i<length h. i \<noteq> node \<longrightarrow> h' ! i = h ! i"
    by (simp add: h'_def nth_append)
  moreover have "map_of (child_nodes (h' ! node)) action = Some (length h)"
    by (simp add: n update_conv')
  moreover have "\<forall>a. a \<noteq> action \<longrightarrow>
            map_of (child_nodes (h' ! node)) a = map_of (child_nodes (h ! node)) a"
    by (simp add: n update_conv')
  moreover have "expand_leaf h node board state g = Inr (h', length h, next_state board state action, g')"
    using r(2) by (simp add: h'_def)
  ultimately show "\<exists>action g' h'.
         action \<in> set (untried_actions (h ! node)) \<and>
         expand_leaf h node board state g = Inr (h', length h, next_state board state action, g') \<and>
         length h' = Suc (length h) \<and>
         h' ! length h = new_MCTSNode (Some node) (Some action)
                           (legal_actions board (next_state board state action)) \<and>
         untried_actions (h' ! node) = remove1 action (untried_actions (h ! node)) \<and>
         Suc (length (untried_actions (h' ! node))) = length (untried_actions (h ! node)) \<and>
         child_nodes (h' ! node) = AList.update action (length h) (child_nodes (h ! node)) \<and>
         map_of (child_nodes (h' ! node)) action = Some (length h) \<and>
         (\<forall>a. a \<noteq> action \<longrightarrow>
            map_of (child_nodes (h' ! node)) a = map_of (child_nodes (h ! node)) a) \<and>
         visits (h' ! node) = visits (h ! node) \<and> wins (h' ! node) = wins (h ! node) \<and>
         parent (h' ! node) = parent (h ! node) \<and>
         parent_action (h' ! node) = parent_action (h ! node) \<and>
         (\<forall>i<length h. i \<noteq> node \<longrightarrow> h' ! i = h ! i)"
    using r(1) n by (intro exI[of _ action] exI[of _ g'] exI[of _ h']) simp
next
  assume "untried_actions (h ! node) = []"
  then show "expand_leaf h node board state g = Inr (h, node, state, g)"
    by (rule expand_leaf_noop)
qed

lemma expand_ex_heap:
  "expand_leaf ex_heap 1 line_board 1 zero_rng =
     Inr (ex_heap[1 := (ex_heap ! 1)\<lparr>untried_actions := [], child_nodes := [(0, 3), (1, 4)]\<rparr>]
            @ [new_MCTSNode (Some 1) (Some 1) [0]], 4, 2, zero_rng)"
  by (simp add: expand_leaf_def choice_def ex_heap_def line_board_def zero_rng_def Let_def)

theorem expand_leaf_frame_witness:
  "untried_actions (ex_heap ! 1) \<noteq> [] \<and> 1 < length ex_heap \<and>
   (\<exists>h'. expand_leaf ex_heap 1 line_board 1 zero_rng = Inr (h', 4, 2, zero_rng) \<and>
      length h' = 5 \<and>
      h' ! 4 = \<lparr>parent = Some 1, parent_action = Some 1, child_nodes = [],
                untried_actions = [0], wins = 0, visits = 0\<rparr> \<and>
      untried_actions (ex_heap ! 1) = [1] \<and> untried_actions (h' ! 1) = [] \<and>
      child_nodes (ex_heap ! 1) = [(0, 3)] \<and> child_nodes (h' ! 1) = [(0, 3), (1, 4)] \<and>
      visits (h' ! 1) = visits (ex_heap ! 1) \<and> wins (h' ! 1) = wins (ex_heap ! 1) \<and>
      h' ! 0 = ex_heap ! 0 \<and> h' ! 2 = ex_heap ! 2 \<and> h' ! 3 = ex_heap ! 3) \<and>
   untried_actions (ex_heap ! 0) = [] \<and>
   expand_leaf ex_heap 0 line_board 0 zero_rng = Inr (ex_heap, 0, 0, zero_rng)"
proof -
  have hyp: "untried_actions (ex_heap ! 1) \<noteq> [] \<and> 1 < length ex_heap"
    by (simp add: ex_heap_def)
  have len: "length ex_heap = 4" by (simp add: ex_heap_def)
  note c6 = expand_leaf_frame[of ex_heap 1 line_board 1 zero_rng]
  from mp[OF conjunct1[OF c6] hyp] obtain action g' h' where
    r: "action \<in> set (untried_actions (ex_heap ! 1))"
      "expand_leaf ex_heap 1 line_board 1 zero_rng
         = Inr (h', length ex_heap, next_state line_board 1 action, g')"
      "length h' = Suc (length ex_heap)"
      "h' ! length ex_heap = new_MCTSNode (Some 1) (Some action)
                           (legal_actions line_board (next_state line_board 1 action))"
      "untried_actions (h' ! 1) = remove1 action (untried_actions (ex_heap ! 1))"
      "child_nodes (h' ! 1) = AList.update action (length ex_heap) (child_nodes (ex_heap ! 1))"
      "visits (h' ! 1) = visits (ex_heap ! 1)" "wins (h' ! 1) = wins (ex_heap ! 1)"
      "\<forall>i<length ex_heap. i \<noteq> 1 \<longrightarrow> h' ! i = ex_heap ! i"
    by (elim exE conjE)
  have u: "untried_actions (ex_heap ! 1) = [1]" and ch: "child_nodes (ex_heap ! 1) = [(0, 3)]"
    by (simp_all add: ex_heap_def)
  from r(1) have act: "action = 1" unfolding u by simp
  from r(2) expand_ex_heap have g': "g' = zero_rng" by simp
  have e: "expand_leaf ex_heap 1 line_board 1 zero_rng = Inr (h', 4, 2, zero_rng)"
    using r(2) expand_ex_heap by simp
  have l: "length h' = 5" using r(3) len by simp
  have n4: "h' ! 4 = \<lparr>parent = Some 1, parent_action = Some 1, child_nodes = [],
                untried_actions = [0], wins = 0, visits = 0\<rparr>"
    using r(4) unfolding len act by (simp add: new_MCTSNode_def line_board_def)
  have u': "untried_actions (h' ! 1) = []" using r(5) unfolding u act by simp
  have ch': "child_nodes (h' ! 1) = [(0, 3), (1, 4)]" using r(6) unfolding ch act len by simp
  have o: "h' ! 0 = ex_heap ! 0" "h' ! 2 = ex_heap ! 2" "h' ! 3 = ex_heap ! 3"
    using r(9) unfolding len by simp_all
  have "\<exists>h'. expand_leaf ex_heap 1 line_board 1 zero_rng = Inr (h', 4, 2, zero_rng) \<and>
      length h' = 5 \<and>
      h' ! 4 = \<lparr>parent = Some 1, parent_action = Some 1, child_nodes = [],
                untried_actions = [0], wins = 0, visits = 0\<rparr> \<and>
      untried_actions (ex_heap ! 1) = [1] \<and> untried_actions (h' ! 1) = [] \<and>
      child_nodes (ex_heap ! 1) = [(0, 3)] \<and> child_nodes (h' ! 1) = [(0, 3), (1, 4)] \<and>
      visits (h' ! 1) = visits (ex_heap ! 1) \<and> wins (h' ! 1) = wins (ex_heap ! 1) \<and>
      h' ! 0 = ex_heap ! 0 \<and> h' ! 2 = ex_heap ! 2 \<and> h' ! 3 = ex_heap ! 3"
    by (intro exI[of _ h'] conjI e l n4 u u' ch ch' r(7) r(8) o)
  moreover have e0: "untried_actions (ex_heap ! 0) = []" by (simp add: ex_heap_def)
  moreover have "expand_leaf ex_heap 0 line_board 0 zero_rng = Inr (ex_heap, 0, 0, zero_rng)"
    by (rule mp[OF conjunct2[OF expand_leaf_frame[of ex_heap 0 line_board 0 zero_rng]] e0])
  ultimately show ?thesis using hyp by (intro conjI) simp_all
qed

section \<open>Tree descent\<close>

lemma traverse_nodes_stop:
  "stop_here board h node state \<Longrightarrow>
     traverse_nodes h node board state bid = Some (Inr (node, state))"
  by (subst traverse_nodes.simps) (auto simp: stop_here_def)

lemma traverse_nodes_step:
  "\<not> stop_here board h node state \<Longrightarrow>
     traverse_nodes h node board state bid =
       (case ucb_select h node bid of
          Inl e \<Rightarrow> Some (Inl e)
        | Inr node' \<Rightarrow>
            (case parent_action (h ! node') of
               None \<Rightarrow> Some (Inl TypeError)
             | Some action \<Rightarrow>
                 traverse_nodes h node' board (next_state board state action) bid))"
  by (subst traverse_nodes.simps) (auto simp: stop_here_def)

lemma traverse_nodes_mod_stop:
  "stop_here board h node state \<Longrightarrow>
     traverse_nodes_mod h node board state bid g = Some (Inr (node, state, g))"
  by (subst traverse_nodes_mod.simps) (auto simp: stop_here_def)

lemma traverse_nodes_mod_step:
  "\<not> stop_here board h node state \<Longrightarrow>
     traverse_nodes_mod h node board state bid g =
       (case probabilities h (child_nodes (h ! node)) of
          Inl e \<Rightarrow> Some (Inl e)
        | Inr probs \<Rightarrow>
            (case roulette_wheel_selection probs g of
               (None, g') \<Rightarrow> Some (Inl KeyError)
             | (Some selected_action, g') \<Rightarrow>
                 (case map_of (child_nodes (h ! node)) selected_action of
                    None \<Rightarrow> Some (Inl KeyError)
                  | Some node' \<Rightarrow>
                      (case parent_action (h ! node') of
                         None \<Rightarrow> Some (Inl TypeError)
                       | Some action \<Rightarrow>
                           traverse_nodes_mod h node' board
                             (next_state board state action) bid g'))))"
  by (subst traverse_nodes_mod.simps) (auto simp: stop_here_def)

lemma traverse_nodes_result_aux:
  assumes "traverse_nodes h node board state bid = Some r"
  shows "\<forall>n' s'. r = Inr (n', s') \<longrightarrow> stop_here board h n' s'"
  apply (rule traverse_nodes.raw_induct[where
      P = "\<lambda>h node board state bid r. \<forall>n' s'. r = Inr (n', s') \<longrightarrow> stop_here board h n' s'",
      OF _ assms])
  subgoal premises prems for f h node board state bid r
  proof (cases "stop_here board h node state")
    case True
    with prems(2) show ?thesis by (auto simp: stop_here_def split: if_splits)
  next
    case False
    with prems(2) show ?thesis
      by (auto simp: stop_here_def split: if_splits sum.splits option.splits dest!: prems(1))
  qed
  done

lemma traverse_nodes_mod_result_aux:
  assumes "traverse_nodes_mod h node board state bid g = Some r"
  shows "\<forall>n' s' g'. r = Inr (n', s', g') \<longrightarrow> stop_here board h n' s'"
  apply (rule traverse_nodes_mod.raw_induct[where
      P = "\<lambda>h node board state bid g r. \<forall>n' s' g'. r = Inr (n', s', g') \<longrightarrow> stop_here board h n' s'",
      OF _ assms])
  subgoal premises prems for f h node board state bid g r
  proof (cases "stop_here board h node state")
    case True
    with prems(2) show ?thesis by (auto simp: stop_here_def split: if_splits)
  next
    case False
    with prems(2) show ?thesis
      by (auto simp: stop_here_def split: if_splits sum.splits option.splits prod.splits
          dest!: prems(1))
  qed
  done

lemma traverse_nodes_total:
  "wf_children h \<Longrightarrow> node < length h \<Longrightarrow>
     \<exists>res. traverse_nodes h node board state bid = Some res \<and>
       (\<forall>n s. res = Inr (n, s) \<longrightarrow> n < length h)"
proof (induction "length h - node" arbitrary: node state rule: less_induct)
  case less
  show ?case
  proof (cases "stop_here board h node state")
    case True
    with less.prems show ?thesis by (simp add: traverse_nodes_stop)
  next
    case False
    note step = traverse_nodes_step[OF False, of bid]
    show ?thesis
    proof (cases "ucb_select h node bid")
      case (Inl e)
      with step show ?thesis by simp
    next
      case (Inr n')
      from ucb_select_max[OF Inr] have "n' \<in> snd ` set (child_nodes (h ! node))" by blast
      with less.prems have n': "node < n'" "n' < length h" by (auto simp: wf_children_def)
      show ?thesis
      proof (cases "parent_action (h ! n')")
        case None
        with step Inr show ?thesis by simp
      next
        case (Some action)
        have "length h - n' < length h - node" using n' by simp
        from less.hyps[OF this less.prems(1) n'(2), of "next_state board state action"]
        show ?thesis using step Inr Some by simp
      qed
    qed
  qed
qed

lemma traverse_nodes_mod_total:
  "wf_children h \<Longrightarrow> node < length h \<Longrightarrow>
     \<exists>res. traverse_nodes_mod h node board state bid g = Some res \<and>
       (\<forall>n s g'. res = Inr (n, s, g') \<longrightarrow> n < length h)"
proof (induction "length h - node" arbitrary: node state g rule: less_induct)
  case less
  show ?case
  proof (cases "stop_here board h node state")
    case True
    with less.prems show ?thesis by (simp add: traverse_nodes_mod_stop)
  next
    case False
    note step = traverse_nodes_mod_step[OF False, of bid g]
    show ?thesis
    proof (cases "probabilities h (child_nodes (h ! node))")
      case (Inl e)
      with step show ?thesis by simp
    next
      case (Inr probs)
      obtain sel g' where sel: "roulette_wheel_selection probs g = (sel, g')"
        by (cases "roulette_wheel_selection probs g")
      show ?thesis
      proof (cases sel)
        case None
        with step Inr sel show ?thesis by simp
      next
        case (Some selected_action)
        show ?thesis
        proof (cases "map_of (child_nodes (h ! node)) selected_action")
          case None
          with step Inr sel Some show ?thesis by simp
        next
          case n: (Some n')
          then have "n' \<in> snd ` set (child_nodes (h ! node))"
            by (auto dest!: map_of_SomeD intro: rev_image_eqI)
          with less.prems have n': "node < n'" "n' < length h" by (auto simp: wf_children_def)
          show ?thesis
          proof (cases "parent_action (h ! n')")
            case None
            with step Inr sel Some n show ?thesis by simp
          next
            case pa: (Some action)
            have "length h - n' < length h - node" using n' by simp
            from less.hyps[OF this less.prems(1) n'(2), of "next_state board state action" g']
            show ?thesis using step Inr sel Some n pa by simp
          qed
        qed
      qed
    qed
  qed
qed

text \<open>
  Claim C5. In both modules the descent returns the current node and state at once
  when the state is terminal, the node has an untried action, the node has no child or no
  child has been visited, whatever the selection would give; otherwise it applies the
  selection strategy once and goes on from the selected child and the next state. A node
  that the descent returns satisfies the stopping condition. On a store whose child
  references point to younger nodes the descent returns.
\<close>

theorem traverse_nodes_stops_exactly:
  "(stop_here board h node state \<longrightarrow>
      traverse_nodes h node board state bid = Some (Inr (node, state)) \<and>
      traverse_nodes_mod h node board state bid g = Some (Inr (node, state, g))) \<and>
   (\<not> stop_here board h node state \<longrightarrow>
      traverse_nodes h node board state bid =
        (case ucb_select h node bid of
           Inl e \<Rightarrow> Some (Inl e)
         | Inr node' \<Rightarrow>
             (case parent_action (h ! node') of
                None \<Rightarrow> Some (Inl TypeError)
              | Some action \<Rightarrow>
                  traverse_nodes h node' board (next_state board state action) bid)) \<and>
      traverse_nodes_mod h node board state bid g =
        (case probabilities h (child_nodes (h ! node)) of
           Inl e \<Rightarrow> Some (Inl e)
         | Inr probs \<Rightarrow>
             (case roulette_wheel_selection probs g of
                (None, g') \<Rightarrow> Some (Inl KeyError)
              | (Some selected_action, g') \<Rightarrow>
                  (case map_of (child_nodes (h ! node)) selected_action of
                     None \<Rightarrow> Some (Inl KeyError)
                   | Some node' \<Rightarrow>
                       (case parent_action (h ! node') of
                          None \<Rightarrow> Some (Inl TypeError)
                        | Some action \<Rightarrow>
                            traverse_nodes_mod h node' board
                              (next_state board state action) bid g'))))) \<and>
   (traverse_nodes h node board state bid = Some (Inr (n', s')) \<longrightarrow> stop_here board h n' s') \<and>
   (traverse_nodes_mod h node board state bid g = Some (Inr (n', s', g1)) \<longrightarrow>
      stop_here board h n' s') \<and>
   (wf_children h \<and> node < length h \<longrightarrow>
      (\<exists>res. traverse_nodes h node board state bid = Some res) \<and>
      (\<exists>res. traverse_nodes_mod h node board state bid g = Some res))"
proof (intro conjI impI)
  assume "stop_here board h node state"
  then show "traverse_nodes h node board state bid = Some (Inr (node, state))"
    and "traverse_nodes_mod h node board state bid g = Some (Inr (node, state, g))"
    by (rule traverse_nodes_stop, rule traverse_nodes_mod_stop)
next
  assume n: "\<not> stop_here board h node state"
  show "traverse_nodes h node board state bid =
        (case ucb_select h node bid of
           Inl e \<Rightarrow> Some (Inl e)
         | Inr node' \<Rightarrow>
             (case parent_action (h ! node') of
                None \<Rightarrow> Some (Inl TypeError)
              | Some action \<Rightarrow>
                  traverse_nodes h node' board (next_state board state action) bid))"
    by (rule traverse_nodes_step[OF n])
  show "traverse_nodes_mod h node board state bid g =
        (case probabilities h (child_nodes (h ! node)) of
           Inl e \<Rightarrow> Some (Inl e)
         | Inr probs \<Rightarrow>
             (case roulette_wheel_selection probs g of
                (None, g') \<Rightarrow> Some (Inl KeyError)
              | (Some selected_action, g') \<Rightarrow>
                  (case map_of (child_nodes (h ! node)) selected_action of
                     None \<Rightarrow> Some (Inl KeyError)
                   | Some node' \<Rightarrow>
                       (case parent_action (h ! node') of
                          None \<Rightarrow> Some (Inl TypeError)
                        | Some action \<Rightarrow>
                            traverse_nodes_mod h node' board
                              (next_state board state action) bid g'))))"
    by (rule traverse_nodes_mod_step[OF n])
next
  assume "traverse_nodes h node board state bid = Some (Inr (n', s'))"
  from traverse_nodes_result_aux[OF this] show "stop_here board h n' s'" by simp
next
  assume "traverse_nodes_mod h node board state bid g = Some (Inr (n', s', g1))"
  from traverse_nodes_mod_result_aux[OF this] show "stop_here board h n' s'" by simp
next
  assume a: "wf_children h \<and> node < length h"
  then show "\<exists>res. traverse_nodes h node board state bid = Some res"
    using traverse_nodes_total[of h node board state bid] by blast
  from a show "\<exists>res. traverse_nodes_mod h node board state bid g = Some res"
    using traverse_nodes_mod_total[of h node board state bid g] by blast
qed

lemma turn_select0: "ucb_select turn_heap 0 1 = Inr 1"
proof -
  have "\<exists>k. ucb turn_heap 1 1 = Inr k"
    by (rule ucb_total) (simp add: turn_heap_def)
  then obtain k where "ucb turn_heap 1 1 = Inr k" ..
  moreover have "child_nodes (turn_heap ! 0) = [(0, 1)]" by (simp add: turn_heap_def)
  ultimately show ?thesis by (simp add: ucb_select_def py_max_def)
qed

lemma turn_select1: "ucb_select turn_heap 1 1 = Inr 2"
proof -
  have "\<exists>k. ucb turn_heap 2 1 = Inr k"
    by (rule ucb_total) (simp add: turn_heap_def)
  then obtain k where "ucb turn_heap 2 1 = Inr k" ..
  moreover have "child_nodes (turn_heap ! 1) = [(0, 2)]" by (simp add: turn_heap_def)
  ultimately show ?thesis by (simp add: ucb_select_def py_max_def)
qed

lemma turn_stop:
  "\<not> stop_here line_board turn_heap 0 0" "\<not> stop_here line_board turn_heap 1 1"
  "stop_here line_board turn_heap 2 2"
  by (simp_all add: stop_here_def line_board_def turn_heap_def)

lemma zero_stop: "stop_here line_board zero_heap 0 0"
  by (simp add: stop_here_def zero_heap_def)

lemma turn_wheel0:
  "probabilities turn_heap (child_nodes (turn_heap ! 0)) = Inr [(0, 1)]"
  "roulette_wheel_selection [(0::nat, 1)] zero_rng = (Some 0, zero_rng)"
  "map_of (child_nodes (turn_heap ! 0)) 0 = Some 1"
  "probabilities turn_heap (child_nodes (turn_heap ! 1)) = Inr [(0, 1)]"
  "map_of (child_nodes (turn_heap ! 1)) 0 = Some 2"
  "parent_action (turn_heap ! 1) = Some 0" "parent_action (turn_heap ! 2) = Some 0"
  "next_state line_board 0 0 = 1" "next_state line_board 1 0 = 2"
  by (simp_all add: probabilities_def total_visits_def turn_heap_def
      roulette_wheel_selection_def random_def zero_rng_def line_board_def)

theorem traverse_nodes_stops_exactly_witness:
  "stop_here line_board zero_heap 0 0 \<and>
   probabilities zero_heap (child_nodes (zero_heap ! 0)) = Inl ZeroDivisionError \<and>
   traverse_nodes zero_heap 0 line_board 0 1 = Some (Inr (0, 0)) \<and>
   traverse_nodes_mod zero_heap 0 line_board 0 1 zero_rng = Some (Inr (0, 0, zero_rng)) \<and>
   \<not> stop_here line_board turn_heap 0 0 \<and> \<not> stop_here line_board turn_heap 1 1 \<and>
   stop_here line_board turn_heap 2 2 \<and>
   traverse_nodes turn_heap 0 line_board 0 1 = Some (Inr (2, 2)) \<and>
   traverse_nodes_mod turn_heap 0 line_board 0 1 zero_rng = Some (Inr (2, 2, zero_rng)) \<and>
   wf_children turn_heap \<and> 0 < length turn_heap \<and>
   (\<exists>res. traverse_nodes turn_heap 0 line_board 0 1 = Some res)"
proof -
  note c5 = traverse_nodes_stops_exactly
  have z: "traverse_nodes zero_heap 0 line_board 0 1 = Some (Inr (0, 0))"
    "traverse_nodes_mod zero_heap 0 line_board 0 1 zero_rng = Some (Inr (0, 0, zero_rng))"
    using mp[OF conjunct1[OF c5[of line_board zero_heap 0 0 1 zero_rng]] zero_stop]
    by simp_all
  have pz: "probabilities zero_heap (child_nodes (zero_heap ! 0)) = Inl ZeroDivisionError"
    by (simp add: probabilities_def total_visits_def zero_heap_def)
  have t2: "traverse_nodes turn_heap 2 line_board 2 1 = Some (Inr (2, 2))"
    "traverse_nodes_mod turn_heap 2 line_board 2 1 zero_rng = Some (Inr (2, 2, zero_rng))"
    using mp[OF conjunct1[OF c5[of line_board turn_heap 2 2 1 zero_rng]] turn_stop(3)]
    by simp_all
  have t1: "traverse_nodes turn_heap 1 line_board 1 1 = Some (Inr (2, 2))"
    "traverse_nodes_mod turn_heap 1 line_board 1 1 zero_rng = Some (Inr (2, 2, zero_rng))"
    using mp[OF conjunct1[OF conjunct2[OF c5[of line_board turn_heap 1 1 1 zero_rng]]] turn_stop(2)]
    by (simp_all only: turn_select1 turn_wheel0 t2 sum.case option.case prod.case)
  have t0: "traverse_nodes turn_heap 0 line_board 0 1 = Some (Inr (2, 2))"
    "traverse_nodes_mod turn_heap 0 line_board 0 1 zero_rng = Some (Inr (2, 2, zero_rng))"
    using mp[OF conjunct1[OF conjunct2[OF c5[of line_board turn_heap 0 0 1 zero_rng]]] turn_stop(1)]
    by (simp_all only: turn_select0 turn_wheel0 t1 sum.case option.case prod.case)
  have wf: "wf_children turn_heap" "0 < length turn_heap"
    by (simp_all add: wf_children_def turn_heap_def less_Suc_eq numeral_3_eq_3)
  have "\<exists>res. traverse_nodes turn_heap 0 line_board 0 1 = Some res"
    using t0(1) by simp
  with zero_stop pz z turn_stop t0 wf show ?thesis by (intro conjI)
qed

section \<open>The search driver: invariant and terminal root\<close>

lemma snd_set_update: "snd ` set (AList.update k v al) \<subseteq> insert v (snd ` set al)"
  by (induction al) auto

lemma tree_inv_root: "tree_inv [new_MCTSNode None None al]"
  by (simp add: tree_inv_def wf_parents_def wf_children_def new_MCTSNode_def)

lemma tree_inv_expand:
  assumes inv: "tree_inv h" and lt: "node < length h"
    and ex: "expand_leaf h node board state g = Inr (h', n', s', g')"
  shows "tree_inv h' \<and> n' < length h'"
proof (cases "untried_actions (h ! node) = []")
  case True
  with ex inv lt show ?thesis by (simp add: expand_leaf_noop)
next
  case False
  from expand_leaf_result[OF False, of g board state] ex obtain action where
    h': "h' = h[node := (h ! node)\<lparr>untried_actions := remove1 action (untried_actions (h ! node)),
                                child_nodes := AList.update action (length h) (child_nodes (h ! node))\<rparr>]
              @ [new_MCTSNode (Some node) (Some action)
                   (legal_actions board (next_state board state action))]"
    and n': "n' = length h" by auto
  let ?X = "(h ! node)\<lparr>untried_actions := remove1 action (untried_actions (h ! node)),
                                child_nodes := AList.update action (length h) (child_nodes (h ! node))\<rparr>"
  let ?N = "new_MCTSNode (Some node) (Some action)
                   (legal_actions board (next_state board state action))"
  have len: "length h' = Suc (length h)" by (simp add: h')
  have nth: "\<And>i. i < length h \<Longrightarrow> h' ! i = (if i = node then ?X else h ! i)"
    by (simp add: h' nth_append)
  have last: "h' ! length h = ?N" by (simp add: h' nth_append)
  from inv have wp: "wf_parents h" and wc: "wf_children h"
    and cnt: "\<forall>nd\<in>set h. 0 \<le> wins nd \<and> wins nd \<le> visits nd" by (simp_all add: tree_inv_def)
  have "wf_parents h'" unfolding wf_parents_def
  proof (intro allI impI)
    fix r p assume r: "r < length h'" and p: "parent (h' ! r) = Some p"
    show "p < r"
    proof (cases "r < length h")
      case True
      with p nth[OF True] have "parent (h ! r) = Some p" by (simp split: if_splits)
      with wp True show ?thesis by (simp add: wf_parents_def)
    next
      case False
      with r len have "r = length h" by simp
      with p last lt show ?thesis by (simp add: new_MCTSNode_def)
    qed
  qed
  moreover have "wf_children h'" unfolding wf_children_def
  proof (intro allI impI ballI)
    fix r c assume r: "r < length h'" and c: "c \<in> snd ` set (child_nodes (h' ! r))"
    show "r < c \<and> c < length h'"
    proof (cases "r < length h")
      case True
      show ?thesis
      proof (cases "r = node")
        case rn: True
        with c nth[OF True] have "c \<in> snd ` set (AList.update action (length h) (child_nodes (h ! node)))"
          by simp
        then have "c \<in> insert (length h) (snd ` set (child_nodes (h ! node)))"
          by (rule subsetD[OF snd_set_update])
        then have "c = length h \<or> c \<in> snd ` set (child_nodes (h ! node))" by simp
        then show ?thesis
        proof
          assume "c = length h"
          with lt rn len show ?thesis by simp
        next
          assume "c \<in> snd ` set (child_nodes (h ! node))"
          with wc lt have "node < c \<and> c < length h" unfolding wf_children_def by blast
          with rn len show ?thesis by simp
        qed
      next
        case False
        with c nth[OF True] have "c \<in> snd ` set (child_nodes (h ! r))" by simp
        with wc True have "r < c \<and> c < length h" unfolding wf_children_def by blast
        with len show ?thesis by simp
      qed
    next
      case False
      with r len have "r = length h" by simp
      with c last show ?thesis by (simp add: new_MCTSNode_def)
    qed
  qed
  moreover have "\<forall>nd\<in>set h'. 0 \<le> wins nd \<and> wins nd \<le> visits nd"
  proof
    fix nd assume "nd \<in> set h'"
    then have "nd \<in> set (h[node := ?X]) \<or> nd = ?N" by (auto simp: h')
    then show "0 \<le> wins nd \<and> wins nd \<le> visits nd"
    proof
      assume "nd \<in> set (h[node := ?X])"
      then have "nd \<in> insert ?X (set h)" by (rule subsetD[OF set_update_subset_insert])
      moreover have "h ! node \<in> set h" using lt by simp
      ultimately show ?thesis using cnt by auto
    next
      assume "nd = ?N"
      then show ?thesis by (simp add: new_MCTSNode_def)
    qed
  qed
  ultimately show ?thesis using n' len by (simp add: tree_inv_def)
qed

lemma tree_inv_backpropagate:
  assumes inv: "tree_inv h" and lt: "node < length h"
  shows "\<exists>h'. backpropagate h (Some node) won = Some h' \<and> tree_inv h' \<and> length h' = length h"
proof -
  from inv have wp: "wf_parents h" and wc: "wf_children h"
    and cnt: "\<forall>nd\<in>set h. 0 \<le> wins nd \<and> wins nd \<le> visits nd" by (simp_all add: tree_inv_def)
  from backpropagate_result[OF wp lt, of won] obtain h' where
    h': "backpropagate h (Some node) won = Some h'" "length h' = length h"
    "\<forall>i<length h. h' ! i = (if on_path h node i then bump won (h ! i) else h ! i)" by blast
  have par: "\<And>i. i < length h \<Longrightarrow> parent (h' ! i) = parent (h ! i)"
    and ch: "\<And>i. i < length h \<Longrightarrow> child_nodes (h' ! i) = child_nodes (h ! i)"
    using h'(3) by (simp_all add: bump_def)
  have "wf_parents h'" using wp par h'(2) by (simp add: wf_parents_def)
  moreover have "wf_children h'" using wc ch h'(2) by (simp add: wf_children_def)
  moreover have "\<forall>nd\<in>set h'. 0 \<le> wins nd \<and> wins nd \<le> visits nd"
  proof
    fix nd assume "nd \<in> set h'"
    then obtain i where i: "i < length h'" "nd = h' ! i" by (auto simp: in_set_conv_nth)
    with h'(2) cnt have "0 \<le> wins (h ! i) \<and> wins (h ! i) \<le> visits (h ! i)" by simp
    with i h'(2,3) show "0 \<le> wins nd \<and> wins nd \<le> visits nd" by (auto simp: bump_def)
  qed
  ultimately show ?thesis using h' by (auto simp: tree_inv_def)
qed

lemma tree_inv_think_step:
  assumes inv: "tree_inv h" and lt: "0 < length h"
    and st: "think_step board s bid 0 h g = Some (Inr (h', g'))"
  shows "tree_inv h' \<and> 0 < length h'"
proof -
  from inv have wc: "wf_children h" by (simp add: tree_inv_def)
  from traverse_nodes_total[OF wc lt, of board s bid] obtain res where
    res: "traverse_nodes h 0 board s bid = Some res"
      "\<forall>n s'. res = Inr (n, s') \<longrightarrow> n < length h" by blast
  from st res(1) obtain node state where r: "res = Inr (node, state)"
    by (cases res) (auto simp: think_step_def)
  with res(2) have nl: "node < length h" by simp
  from st res(1) r obtain h1 node1 state1 g1 where
    e: "expand_leaf h node board state g = Inr (h1, node1, state1, g1)"
    by (cases "expand_leaf h node board state g") (auto simp: think_step_def)
  from tree_inv_expand[OF inv nl e] have i1: "tree_inv h1" "node1 < length h1" by simp_all
  from st res(1) r e have st': "(case rollout board state1 g1 of
                  None \<Rightarrow> None
                | Some (Inl e) \<Rightarrow> Some (Inl e)
                | Some (Inr (result_state, g2)) \<Rightarrow>
                    (case is_win board result_state bid of
                       Inl e \<Rightarrow> Some (Inl e)
                     | Inr won \<Rightarrow>
                         (case backpropagate h1 (Some node1) won of
                            None \<Rightarrow> None
                          | Some h2 \<Rightarrow> Some (Inr (h2, g2))))) = Some (Inr (h', g'))"
    by (simp add: think_step_def)
  then obtain result_state g2 where ro: "rollout board state1 g1 = Some (Inr (result_state, g2))"
    by (cases "rollout board state1 g1"; simp split: sum.splits prod.splits)
  with st' obtain won where w: "is_win board result_state bid = Inr won"
    by (cases "is_win board result_state bid"; simp)
  with st' ro have b: "backpropagate h1 (Some node1) won = Some h'"
    by (cases "backpropagate h1 (Some node1) won"; simp)
  from tree_inv_backpropagate[OF i1, of won] b i1(2) show ?thesis by auto
qed

lemma tree_inv_think_step_mod:
  assumes inv: "tree_inv h" and lt: "0 < length h"
    and st: "think_step_mod board s bid 0 h g = Some (Inr (h', g'))"
  shows "tree_inv h' \<and> 0 < length h'"
proof -
  from inv have wc: "wf_children h" by (simp add: tree_inv_def)
  from traverse_nodes_mod_total[OF wc lt, of board s bid g] obtain res where
    res: "traverse_nodes_mod h 0 board s bid g = Some res"
      "\<forall>n s' g0. res = Inr (n, s', g0) \<longrightarrow> n < length h" by blast
  from st res(1) obtain node state g0 where r: "res = Inr (node, state, g0)"
    by (cases res) (auto simp: think_step_mod_def)
  with res(2) have nl: "node < length h" by simp
  from st res(1) r obtain h1 node1 state1 g1 where
    e: "expand_leaf h node board state g0 = Inr (h1, node1, state1, g1)"
    by (cases "expand_leaf h node board state g0") (auto simp: think_step_mod_def)
  from tree_inv_expand[OF inv nl e] have i1: "tree_inv h1" "node1 < length h1" by simp_all
  from st res(1) r e have st': "(case rollout_mod board state1 g1 of
                  None \<Rightarrow> None
                | Some (Inl e) \<Rightarrow> Some (Inl e)
                | Some (Inr (result_state, g2)) \<Rightarrow>
                    (case is_win board result_state bid of
                       Inl e \<Rightarrow> Some (Inl e)
                     | Inr won \<Rightarrow>
                         (case backpropagate h1 (Some node1) won of
                            None \<Rightarrow> None
                          | Some h2 \<Rightarrow> Some (Inr (h2, g2))))) = Some (Inr (h', g'))"
    by (simp add: think_step_mod_def)
  then obtain result_state g2 where ro: "rollout_mod board state1 g1 = Some (Inr (result_state, g2))"
    by (cases "rollout_mod board state1 g1"; simp split: sum.splits prod.splits)
  with st' obtain won where w: "is_win board result_state bid = Inr won"
    by (cases "is_win board result_state bid"; simp)
  with st' ro have b: "backpropagate h1 (Some node1) won = Some h'"
    by (cases "backpropagate h1 (Some node1) won"; simp)
  from tree_inv_backpropagate[OF i1, of won] b i1(2) show ?thesis by auto
qed

lemma tree_inv_think_loop:
  "tree_inv h \<Longrightarrow> 0 < length h \<Longrightarrow>
     think_loop n board s bid 0 h g = Some (Inr (h', g')) \<Longrightarrow> tree_inv h'"
proof (induction n arbitrary: h g)
  case 0
  then show ?case by simp
next
  case (Suc n)
  from Suc.prems(3) obtain h1 g1 where
    st: "think_step board s bid 0 h g = Some (Inr (h1, g1))"
    and lp: "think_loop n board s bid 0 h1 g1 = Some (Inr (h', g'))"
    by (auto split: option.splits sum.splits)
  from tree_inv_think_step[OF Suc.prems(1,2) st] Suc.IH[OF _ _ lp] show ?case by simp
qed

lemma tree_inv_think_loop_mod:
  "tree_inv h \<Longrightarrow> 0 < length h \<Longrightarrow>
     think_loop_mod n board s bid 0 h g = Some (Inr (h', g')) \<Longrightarrow> tree_inv h'"
proof (induction n arbitrary: h g)
  case 0
  then show ?case by simp
next
  case (Suc n)
  from Suc.prems(3) obtain h1 g1 where
    st: "think_step_mod board s bid 0 h g = Some (Inr (h1, g1))"
    and lp: "think_loop_mod n board s bid 0 h1 g1 = Some (Inr (h', g'))"
    by (auto split: option.splits sum.splits)
  from tree_inv_think_step_mod[OF Suc.prems(1,2) st] Suc.IH[OF _ _ lp] show ?case by simp
qed

lemma rollout_terminal: "is_ended board s \<Longrightarrow> rollout board s g = Some (Inr (s, g))"
  by (subst rollout.simps) simp

lemma rollout_mod_terminal: "is_ended board s \<Longrightarrow> rollout_mod board s g = Some (Inr (s, g))"
  by (subst rollout_mod.simps) simp

lemma think_step_terminal:
  assumes "is_ended board s" and "untried_actions (h ! 0) = []" and "parent (h ! 0) = None"
    and "points_values board s = Some oc" and "oc bid = Some v"
  shows "think_step board s bid 0 h g = Some (Inr (h[0 := bump (v = 1) (h ! 0)], g))"
    and "think_step_mod board s bid 0 h g = Some (Inr (h[0 := bump (v = 1) (h ! 0)], g))"
proof -
  have st: "stop_here board h 0 s" using assms(1) by (simp add: stop_here_def)
  have w: "is_win board s bid = Inr (v = 1)" using assms(4,5) by (simp add: is_win_def)
  have b: "backpropagate h (Some 0) (v = 1) = Some (h[0 := bump (v = 1) (h ! 0)])"
    using assms(3) by (simp add: backpropagate_Some backpropagate_None)
  show "think_step board s bid 0 h g = Some (Inr (h[0 := bump (v = 1) (h ! 0)], g))"
    by (simp add: think_step_def traverse_nodes_stop[OF st] expand_leaf_noop[OF assms(2)]
        rollout_terminal[OF assms(1)] w b)
  show "think_step_mod board s bid 0 h g = Some (Inr (h[0 := bump (v = 1) (h ! 0)], g))"
    by (simp add: think_step_mod_def traverse_nodes_mod_stop[OF st] expand_leaf_noop[OF assms(2)]
        rollout_mod_terminal[OF assms(1)] w b)
qed

lemma think_loop_terminal:
  assumes "is_ended board s" and "points_values board s = Some oc" and "oc bid = Some v"
  shows "untried_actions (h ! 0) = [] \<Longrightarrow> parent (h ! 0) = None \<Longrightarrow> 0 < length h \<Longrightarrow>
     \<exists>h'. think_loop n board s bid 0 h g = Some (Inr (h', g)) \<and>
       child_nodes (h' ! 0) = child_nodes (h ! 0)"
proof (induction n arbitrary: h)
  case 0
  show ?case by simp
next
  case (Suc n)
  let ?h1 = "h[0 := bump (v = 1) (h ! 0)]"
  have st: "think_step board s bid 0 h g = Some (Inr (?h1, g))"
    by (rule think_step_terminal(1)[OF assms(1) Suc.prems(1,2) assms(2,3)])
  have "untried_actions (?h1 ! 0) = []" "parent (?h1 ! 0) = None" "0 < length ?h1"
    using Suc.prems by (simp_all add: bump_def)
  from Suc.IH[OF this] obtain h' where
    "think_loop n board s bid 0 ?h1 g = Some (Inr (h', g))"
    "child_nodes (h' ! 0) = child_nodes (?h1 ! 0)" by blast
  with st Suc.prems(3) show ?case by (simp add: bump_def)
qed

lemma think_loop_mod_terminal:
  assumes "is_ended board s" and "points_values board s = Some oc" and "oc bid = Some v"
  shows "untried_actions (h ! 0) = [] \<Longrightarrow> parent (h ! 0) = None \<Longrightarrow> 0 < length h \<Longrightarrow>
     \<exists>h'. think_loop_mod n board s bid 0 h g = Some (Inr (h', g)) \<and>
       child_nodes (h' ! 0) = child_nodes (h ! 0)"
proof (induction n arbitrary: h)
  case 0
  show ?case by simp
next
  case (Suc n)
  let ?h1 = "h[0 := bump (v = 1) (h ! 0)]"
  have st: "think_step_mod board s bid 0 h g = Some (Inr (?h1, g))"
    by (rule think_step_terminal(2)[OF assms(1) Suc.prems(1,2) assms(2,3)])
  have "untried_actions (?h1 ! 0) = []" "parent (?h1 ! 0) = None" "0 < length ?h1"
    using Suc.prems by (simp_all add: bump_def)
  from Suc.IH[OF this] obtain h' where
    "think_loop_mod n board s bid 0 ?h1 g = Some (Inr (h', g))"
    "child_nodes (h' ! 0) = child_nodes (?h1 ! 0)" by blast
  with st Suc.prems(3) show ?case by (simp add: bump_def)
qed

lemma term_first_step:
  "think_step term_board 0 1 0 [new_MCTSNode None None [0]] zero_rng =
     Some (Inr ([\<lparr>parent = None, parent_action = None, child_nodes = [(0, 1)],
                   untried_actions = [], wins = 1, visits = 1\<rparr>,
                 \<lparr>parent = Some 0, parent_action = Some 0, child_nodes = [],
                   untried_actions = [0], wins = 1, visits = 1\<rparr>], zero_rng))"
  "think_step_mod term_board 0 1 0 [new_MCTSNode None None [0]] zero_rng =
     Some (Inr ([\<lparr>parent = None, parent_action = None, child_nodes = [(0, 1)],
                   untried_actions = [], wins = 1, visits = 1\<rparr>,
                 \<lparr>parent = Some 0, parent_action = Some 0, child_nodes = [],
                   untried_actions = [0], wins = 1, visits = 1\<rparr>], zero_rng))"
  by (simp_all add: think_step_def think_step_mod_def traverse_nodes.simps traverse_nodes_mod.simps
      rollout.simps rollout_mod.simps backpropagate.simps expand_leaf_def choice_def
      is_win_def term_board_def new_MCTSNode_def zero_rng_def Let_def)

text \<open>
  \<^verbatim>\<open>expand_leaf\<close> tests the untried actions of the node and not the state, although
  its docstring restricts the expansion to a node that is not terminal. On \<open>term_board\<close>
  the root state is terminal and has a legal action: the first pass expands the root, and
  the driver of either module returns that action.
\<close>

lemma terminal_root_with_legal_action_expanded:
  "is_ended term_board 0 \<and> think term_board 0 zero_rng = Some (Inr (Some 0)) \<and>
   think_mod term_board 0 zero_rng = Some (Inr (Some 0))"
proof -
  let ?h1 = "[\<lparr>parent = None, parent_action = None, child_nodes = [(0, 1)],
                   untried_actions = [], wins = 1, visits = 1\<rparr>,
                 \<lparr>parent = Some 0, parent_action = Some 0, child_nodes = [],
                   untried_actions = [0::nat], wins = 1, visits = 1\<rparr>] :: nat heap"
  have e: "is_ended term_board 0" and pv: "points_values term_board 0 = Some [1 \<mapsto> 1, 2 \<mapsto> - 1]"
    and oc: "[1 \<mapsto> 1, 2 \<mapsto> - 1] (1::int) = Some (1::int)"
    and cp: "current_player term_board 0 = 1" and la: "legal_actions term_board 0 = [0]"
    by (simp_all add: term_board_def)
  have h: "untried_actions (?h1 ! 0) = []" "parent (?h1 ! 0) = None" "0 < length ?h1"
    by simp_all
  have best: "\<And>h :: nat heap. child_nodes (h ! 0) = [(0, 1)] \<Longrightarrow> get_best_action h 0 = Inr (Some 0)"
    by (simp add: get_best_action_def py_max_def child_visits_def)
  from think_loop_terminal[OF e pv oc h, of 99 zero_rng] obtain h' where
    h': "think_loop 99 term_board 0 1 0 ?h1 zero_rng = Some (Inr (h', zero_rng))"
      "child_nodes (h' ! 0) = child_nodes (?h1 ! 0)" by blast
  have n: "num_nodes = Suc 99" by (simp add: num_nodes_def)
  have "think_loop num_nodes term_board 0 1 0 [new_MCTSNode None None [0]] zero_rng
      = Some (Inr (h', zero_rng))"
    unfolding n
    by (simp only: think_loop.simps term_first_step(1) option.case sum.case prod.case h'(1))
  moreover from h'(2) have "get_best_action h' 0 = Inr (Some 0)" by (intro best) simp
  ultimately have a: "think term_board 0 zero_rng = Some (Inr (Some 0))"
    by (simp add: think_def cp la)
  from think_loop_mod_terminal[OF e pv oc h, of 999 zero_rng] obtain h2 where
    h2: "think_loop_mod 999 term_board 0 1 0 ?h1 zero_rng = Some (Inr (h2, zero_rng))"
      "child_nodes (h2 ! 0) = child_nodes (?h1 ! 0)" by blast
  have m: "num_nodes_mod = Suc 999" by (simp add: num_nodes_mod_def)
  have "think_loop_mod num_nodes_mod term_board 0 1 0 [new_MCTSNode None None [0]] zero_rng
      = Some (Inr (h2, zero_rng))"
    unfolding m
    by (simp only: think_loop_mod.simps term_first_step(2) option.case sum.case prod.case h2(1))
  moreover from h2(2) have "get_best_action h2 0 = Inr (Some 0)" by (intro best) simp
  ultimately have b: "think_mod term_board 0 zero_rng = Some (Inr (Some 0))"
    by (simp add: think_mod_def cp la)
  from e a b show ?thesis by simp
qed

lemma turn_heap_reached_mod:
  "think_loop_mod 2 line_board 0 1 0 [new_MCTSNode None None (legal_actions line_board 0)] zero_rng
     = Some (Inr (turn_heap, zero_rng))"
  by (simp add: numeral_2_eq_2 think_step_mod_def traverse_nodes_mod.simps rollout_mod.simps
      heuristic_strategy_def backpropagate.simps expand_leaf_def choice_def
      is_win_def line_board_def new_MCTSNode_def zero_rng_def Let_def probabilities_def
      total_visits_def roulette_wheel_selection_def random_def
      turn_heap_def numeral_3_eq_3)

lemma backpropagate_counters:
  assumes "wf_parents h0" and "node < length h0"
  shows "\<exists>h1. backpropagate h0 (Some node) won = Some h1 \<and> length h1 = length h0 \<and>
     (\<forall>i<length h0.
        (wins (h1 ! i) = wins (h0 ! i) \<and> visits (h1 ! i) = visits (h0 ! i)) \<or>
        (visits (h1 ! i) = visits (h0 ! i) + 1 \<and>
           (wins (h1 ! i) = wins (h0 ! i) \<or> wins (h1 ! i) = wins (h0 ! i) + 1)))"
proof -
  from backpropagate_result[OF assms, of won] obtain h1 where
    h1: "backpropagate h0 (Some node) won = Some h1" "length h1 = length h0"
    "\<forall>i<length h0. h1 ! i = (if on_path h0 node i then bump won (h0 ! i) else h0 ! i)" by blast
  have "\<forall>i<length h0.
        (wins (h1 ! i) = wins (h0 ! i) \<and> visits (h1 ! i) = visits (h0 ! i)) \<or>
        (visits (h1 ! i) = visits (h0 ! i) + 1 \<and>
           (wins (h1 ! i) = wins (h0 ! i) \<or> wins (h1 ! i) = wins (h0 ! i) + 1))"
    using h1(3) by (simp add: bump_def)
  with h1(1,2) show ?thesis by blast
qed

text \<open>
  Claim C2. A new node has 0 wins and 0 visits. After every number of completed passes
  of the search, in either module, every node of the store has wins between 0 and its
  visits. A backpropagation leaves the counters of a node alone or increments its visits
  by 1, and only in the second case it may increment the wins, by 1.
\<close>

theorem wins_le_visits_invariant:
  "wins (new_MCTSNode p pa al) = 0 \<and> visits (new_MCTSNode p pa al) = 0 \<and>
   (think_loop n board s bid 0 [new_MCTSNode None None al0] g = Some (Inr (h, g')) \<longrightarrow>
      (\<forall>nd\<in>set h. 0 \<le> wins nd \<and> wins nd \<le> visits nd)) \<and>
   (think_loop_mod n board s bid 0 [new_MCTSNode None None al0] g = Some (Inr (hm, gm)) \<longrightarrow>
      (\<forall>nd\<in>set hm. 0 \<le> wins nd \<and> wins nd \<le> visits nd)) \<and>
   (wf_parents h0 \<and> node < length h0 \<longrightarrow>
      (\<exists>h1. backpropagate h0 (Some node) won = Some h1 \<and> length h1 = length h0 \<and>
         (\<forall>i<length h0.
            (wins (h1 ! i) = wins (h0 ! i) \<and> visits (h1 ! i) = visits (h0 ! i)) \<or>
            (visits (h1 ! i) = visits (h0 ! i) + 1 \<and>
               (wins (h1 ! i) = wins (h0 ! i) \<or> wins (h1 ! i) = wins (h0 ! i) + 1)))))"
proof (intro conjI impI)
  show "wins (new_MCTSNode p pa al) = 0" "visits (new_MCTSNode p pa al) = 0"
    by (simp_all add: new_MCTSNode_def)
next
  assume "think_loop n board s bid 0 [new_MCTSNode None None al0] g = Some (Inr (h, g'))"
  from tree_inv_think_loop[OF tree_inv_root _ this]
  show "\<forall>nd\<in>set h. 0 \<le> wins nd \<and> wins nd \<le> visits nd" by (simp add: tree_inv_def)
next
  assume "think_loop_mod n board s bid 0 [new_MCTSNode None None al0] g = Some (Inr (hm, gm))"
  from tree_inv_think_loop_mod[OF tree_inv_root _ this]
  show "\<forall>nd\<in>set hm. 0 \<le> wins nd \<and> wins nd \<le> visits nd" by (simp add: tree_inv_def)
next
  assume "wf_parents h0 \<and> node < length h0"
  then show "\<exists>h1. backpropagate h0 (Some node) won = Some h1 \<and> length h1 = length h0 \<and>
         (\<forall>i<length h0.
            (wins (h1 ! i) = wins (h0 ! i) \<and> visits (h1 ! i) = visits (h0 ! i)) \<or>
            (visits (h1 ! i) = visits (h0 ! i) + 1 \<and>
               (wins (h1 ! i) = wins (h0 ! i) \<or> wins (h1 ! i) = wins (h0 ! i) + 1)))"
    using backpropagate_counters[of h0 node won] by blast
qed

theorem wins_le_visits_invariant_witness:
  "think_loop 2 line_board 0 1 0 [new_MCTSNode None None (legal_actions line_board 0)] zero_rng
     = Some (Inr (turn_heap, zero_rng)) \<and>
   think_loop_mod 2 line_board 0 1 0 [new_MCTSNode None None (legal_actions line_board 0)] zero_rng
     = Some (Inr (turn_heap, zero_rng)) \<and>
   list_all (\<lambda>nd. 0 \<le> wins nd \<and> wins nd \<le> visits nd) turn_heap \<and>
   wf_parents ex_heap \<and> 3 < length ex_heap \<and>
   (\<exists>h1. backpropagate ex_heap (Some 3) False = Some h1 \<and> length h1 = length ex_heap \<and>
      list_all (\<lambda>i.
            (wins (h1 ! i) = wins (ex_heap ! i) \<and> visits (h1 ! i) = visits (ex_heap ! i)) \<or>
            (visits (h1 ! i) = visits (ex_heap ! i) + 1 \<and>
               (wins (h1 ! i) = wins (ex_heap ! i) \<or> wins (h1 ! i) = wins (ex_heap ! i) + 1)))
        [0 ..< length ex_heap])"
proof -
  note c2 = wins_le_visits_invariant[of None None "[]" 2 line_board 0 1
      "legal_actions line_board 0" zero_rng turn_heap zero_rng turn_heap zero_rng ex_heap 3 False]
  have a: "\<forall>nd\<in>set turn_heap. 0 \<le> wins nd \<and> wins nd \<le> visits nd"
    by (rule mp[OF conjunct1[OF conjunct2[OF conjunct2[OF c2]]] turn_heap_reached])
  then have la: "list_all (\<lambda>nd. 0 \<le> wins nd \<and> wins nd \<le> visits nd) turn_heap"
    by (simp add: list_all_iff)
  have hyp: "wf_parents ex_heap \<and> 3 < length ex_heap"
    using ex_heap_wf by (simp add: ex_heap_def)
  from mp[OF conjunct2[OF conjunct2[OF conjunct2[OF conjunct2[OF c2]]]] hyp]
  obtain h1 where h1: "backpropagate ex_heap (Some 3) False = Some h1"
    "length h1 = length ex_heap"
    "\<forall>i<length ex_heap.
            (wins (h1 ! i) = wins (ex_heap ! i) \<and> visits (h1 ! i) = visits (ex_heap ! i)) \<or>
            (visits (h1 ! i) = visits (ex_heap ! i) + 1 \<and>
               (wins (h1 ! i) = wins (ex_heap ! i) \<or> wins (h1 ! i) = wins (ex_heap ! i) + 1))"
    by (elim exE conjE)
  from h1(3) have "list_all (\<lambda>i.
            (wins (h1 ! i) = wins (ex_heap ! i) \<and> visits (h1 ! i) = visits (ex_heap ! i)) \<or>
            (visits (h1 ! i) = visits (ex_heap ! i) + 1 \<and>
               (wins (h1 ! i) = wins (ex_heap ! i) \<or> wins (h1 ! i) = wins (ex_heap ! i) + 1)))
        [0 ..< length ex_heap]"
    unfolding list_all_iff by simp
  with h1(1,2) have "\<exists>h1. backpropagate ex_heap (Some 3) False = Some h1 \<and>
      length h1 = length ex_heap \<and>
      list_all (\<lambda>i.
            (wins (h1 ! i) = wins (ex_heap ! i) \<and> visits (h1 ! i) = visits (ex_heap ! i)) \<or>
            (visits (h1 ! i) = visits (ex_heap ! i) + 1 \<and>
               (wins (h1 ! i) = wins (ex_heap ! i) \<or> wins (h1 ! i) = wins (ex_heap ! i) + 1)))
        [0 ..< length ex_heap]" by blast
  with turn_heap_reached turn_heap_reached_mod la hyp show ?thesis by (intro conjI) simp_all
qed

section \<open>Scores and selection on the stores of the search\<close>

lemma link_inv_root: "link_inv [new_MCTSNode None None al]"
  by (simp add: link_inv_def new_MCTSNode_def)

lemma link_inv_expand:
  assumes inv: "tree_inv h" and li: "link_inv h" and lt: "node < length h"
    and ex: "expand_leaf h node board state g = Inr (h', n', s', g')"
  shows "link_inv h'"
proof (cases "untried_actions (h ! node) = []")
  case True
  with ex li show ?thesis by (simp add: expand_leaf_noop)
next
  case False
  from expand_leaf_result[OF False, of g board state] ex obtain action where
    h': "h' = h[node := (h ! node)\<lparr>untried_actions := remove1 action (untried_actions (h ! node)),
                                child_nodes := AList.update action (length h) (child_nodes (h ! node))\<rparr>]
              @ [new_MCTSNode (Some node) (Some action)
                   (legal_actions board (next_state board state action))]"
    by auto
  let ?X = "(h ! node)\<lparr>untried_actions := remove1 action (untried_actions (h ! node)),
                                child_nodes := AList.update action (length h) (child_nodes (h ! node))\<rparr>"
  let ?N = "new_MCTSNode (Some node) (Some action)
                   (legal_actions board (next_state board state action))"
  have len: "length h' = Suc (length h)" by (simp add: h')
  have nth: "\<And>i. i < length h \<Longrightarrow> h' ! i = (if i = node then ?X else h ! i)"
    by (simp add: h' nth_append)
  have last: "h' ! length h = ?N" by (simp add: h' nth_append)
  have par: "\<And>i. i < length h \<Longrightarrow> parent (h' ! i) = parent (h ! i)"
    and vis: "\<And>i. i < length h \<Longrightarrow> visits (h' ! i) = visits (h ! i)"
    by (simp_all add: nth)
  from inv have wp: "wf_parents h" and wc: "wf_children h"
    and cnt: "\<forall>nd\<in>set h. 0 \<le> wins nd \<and> wins nd \<le> visits nd" by (simp_all add: tree_inv_def)
  from li have l1: "\<forall>r<length h. \<forall>c\<in>snd ` set (child_nodes (h ! r)). parent (h ! c) = Some r"
    and l2: "\<forall>r<length h. \<forall>p. parent (h ! r) = Some p \<longrightarrow> visits (h ! r) \<le> visits (h ! p)"
    by (simp_all add: link_inv_def)
  have a: "\<forall>r<length h'. \<forall>c\<in>snd ` set (child_nodes (h' ! r)). parent (h' ! c) = Some r"
  proof (intro allI impI ballI)
    fix r c assume r: "r < length h'" and c: "c \<in> snd ` set (child_nodes (h' ! r))"
    show "parent (h' ! c) = Some r"
    proof (cases "r < length h")
      case True
      show ?thesis
      proof (cases "r = node")
        case rn: True
        with c nth[OF True] have "c \<in> snd ` set (AList.update action (length h) (child_nodes (h ! node)))"
          by simp
        then have "c \<in> insert (length h) (snd ` set (child_nodes (h ! node)))"
          by (rule subsetD[OF snd_set_update])
        then have "c = length h \<or> c \<in> snd ` set (child_nodes (h ! node))" by simp
        then show ?thesis
        proof
          assume "c = length h"
          with last rn show ?thesis by (simp add: new_MCTSNode_def)
        next
          assume ci: "c \<in> snd ` set (child_nodes (h ! node))"
          with wc lt have "node < c \<and> c < length h" unfolding wf_children_def by blast
          moreover from l1 lt ci have "parent (h ! c) = Some node" by blast
          ultimately show ?thesis using rn by (simp add: par)
        qed
      next
        case False
        with c nth[OF True] have ci: "c \<in> snd ` set (child_nodes (h ! r))" by simp
        with wc True have "r < c \<and> c < length h" unfolding wf_children_def by blast
        moreover from l1 True ci have "parent (h ! c) = Some r" by blast
        ultimately show ?thesis by (simp add: par)
      qed
    next
      case False
      with r len have "r = length h" by simp
      with c last show ?thesis by (simp add: new_MCTSNode_def)
    qed
  qed
  have b: "\<forall>r<length h'. \<forall>p. parent (h' ! r) = Some p \<longrightarrow> visits (h' ! r) \<le> visits (h' ! p)"
  proof (intro allI impI)
    fix r p assume r: "r < length h'" and p: "parent (h' ! r) = Some p"
    show "visits (h' ! r) \<le> visits (h' ! p)"
    proof (cases "r < length h")
      case True
      with p have pp: "parent (h ! r) = Some p" by (simp add: par)
      with wp True have "p < r" by (simp add: wf_parents_def)
      with True have pl: "p < length h" by simp
      from l2 True pp have "visits (h ! r) \<le> visits (h ! p)" by blast
      with True pl show ?thesis by (simp add: vis)
    next
      case False
      with r len have rl: "r = length h" by simp
      with p last have pn: "p = node" by (simp add: new_MCTSNode_def)
      have "h ! node \<in> set h" using lt by simp
      with cnt have "0 \<le> visits (h ! node)" by fastforce
      with rl pn last lt show ?thesis by (simp add: vis new_MCTSNode_def)
    qed
  qed
  from a b show ?thesis by (simp add: link_inv_def)
qed

lemma link_inv_backpropagate:
  assumes inv: "tree_inv h" and li: "link_inv h" and lt: "node < length h"
    and bp: "backpropagate h (Some node) won = Some h'"
  shows "link_inv h'"
proof -
  from inv have wp: "wf_parents h" by (simp add: tree_inv_def)
  from backpropagate_result[OF wp lt, of won] bp have
    len: "length h' = length h" and
    nth: "\<forall>i<length h. h' ! i = (if on_path h node i then bump won (h ! i) else h ! i)" by auto
  have par: "\<And>i. i < length h \<Longrightarrow> parent (h' ! i) = parent (h ! i)"
    and ch: "\<And>i. i < length h \<Longrightarrow> child_nodes (h' ! i) = child_nodes (h ! i)"
    using nth by (simp_all add: bump_def)
  from li have l1: "\<forall>r<length h. \<forall>c\<in>snd ` set (child_nodes (h ! r)). parent (h ! c) = Some r"
    and l2: "\<forall>r<length h. \<forall>p. parent (h ! r) = Some p \<longrightarrow> visits (h ! r) \<le> visits (h ! p)"
    by (simp_all add: link_inv_def)
  from inv have wc: "wf_children h" by (simp add: tree_inv_def)
  have a: "\<forall>r<length h'. \<forall>c\<in>snd ` set (child_nodes (h' ! r)). parent (h' ! c) = Some r"
  proof (intro allI impI ballI)
    fix r c assume r: "r < length h'" and c: "c \<in> snd ` set (child_nodes (h' ! r))"
    from r len have rl: "r < length h" by simp
    with c have ci: "c \<in> snd ` set (child_nodes (h ! r))" by (simp add: ch)
    with wc rl have "c < length h" unfolding wf_children_def by blast
    moreover from l1 rl ci have "parent (h ! c) = Some r" by blast
    ultimately show "parent (h' ! c) = Some r" by (simp add: par)
  qed
  have b: "\<forall>r<length h'. \<forall>p. parent (h' ! r) = Some p \<longrightarrow> visits (h' ! r) \<le> visits (h' ! p)"
  proof (intro allI impI)
    fix r p assume r: "r < length h'" and p: "parent (h' ! r) = Some p"
    from r len have rl: "r < length h" by simp
    with p have pp: "parent (h ! r) = Some p" by (simp add: par)
    with wp rl have "p < r" by (simp add: wf_parents_def)
    with rl have pl: "p < length h" by simp
    from l2 rl pp have le: "visits (h ! r) \<le> visits (h ! p)" by blast
    have up: "on_path h node r \<Longrightarrow> on_path h node p" by (rule on_path.up[OF _ pp])
    from nth rl have hr: "h' ! r = (if on_path h node r then bump won (h ! r) else h ! r)" by blast
    from nth pl have hp: "h' ! p = (if on_path h node p then bump won (h ! p) else h ! p)" by blast
    show "visits (h' ! r) \<le> visits (h' ! p)"
      using le up unfolding hr hp by (auto simp: bump_def)
  qed
  from a b show ?thesis by (simp add: link_inv_def)
qed

lemma think_step_parts:
  assumes inv: "tree_inv h" and lt: "0 < length h"
    and st: "think_step board s bid 0 h g = Some (Inr (h', g'))"
  shows "\<exists>node state h1 node1 state1 g1 won. node < length h \<and>
           expand_leaf h node board state g = Inr (h1, node1, state1, g1) \<and>
           backpropagate h1 (Some node1) won = Some h'"
proof -
  from inv have wc: "wf_children h" by (simp add: tree_inv_def)
  from traverse_nodes_total[OF wc lt, of board s bid] obtain res where
    res: "traverse_nodes h 0 board s bid = Some res"
      "\<forall>n s'. res = Inr (n, s') \<longrightarrow> n < length h" by blast
  from st res(1) obtain node state where r: "res = Inr (node, state)"
    by (cases res) (auto simp: think_step_def)
  with res(2) have nl: "node < length h" by simp
  from st res(1) r obtain h1 node1 state1 g1 where
    e: "expand_leaf h node board state g = Inr (h1, node1, state1, g1)"
    by (cases "expand_leaf h node board state g") (auto simp: think_step_def)
  from st res(1) r e have st': "(case rollout board state1 g1 of
                  None \<Rightarrow> None
                | Some (Inl e) \<Rightarrow> Some (Inl e)
                | Some (Inr (result_state, g2)) \<Rightarrow>
                    (case is_win board result_state bid of
                       Inl e \<Rightarrow> Some (Inl e)
                     | Inr won \<Rightarrow>
                         (case backpropagate h1 (Some node1) won of
                            None \<Rightarrow> None
                          | Some h2 \<Rightarrow> Some (Inr (h2, g2))))) = Some (Inr (h', g'))"
    by (simp add: think_step_def)
  then obtain result_state g2 where ro: "rollout board state1 g1 = Some (Inr (result_state, g2))"
    by (cases "rollout board state1 g1"; simp split: sum.splits prod.splits)
  with st' obtain won where w: "is_win board result_state bid = Inr won"
    by (cases "is_win board result_state bid"; simp)
  with st' ro have b: "backpropagate h1 (Some node1) won = Some h'"
    by (cases "backpropagate h1 (Some node1) won"; simp)
  from nl e b show ?thesis by blast
qed

lemma link_inv_think_step:
  assumes inv: "tree_inv h" and li: "link_inv h" and lt: "0 < length h"
    and st: "think_step board s bid 0 h g = Some (Inr (h', g'))"
  shows "link_inv h'"
proof -
  from think_step_parts[OF inv lt st] obtain node state h1 node1 state1 g1 won where
    nl: "node < length h" and e: "expand_leaf h node board state g = Inr (h1, node1, state1, g1)"
    and b: "backpropagate h1 (Some node1) won = Some h'" by blast
  from tree_inv_expand[OF inv nl e] have i1: "tree_inv h1" "node1 < length h1" by simp_all
  from link_inv_expand[OF inv li nl e] have l1: "link_inv h1" .
  from link_inv_backpropagate[OF i1(1) l1 i1(2) b] show ?thesis .
qed

lemma link_inv_think_loop:
  "tree_inv h \<Longrightarrow> link_inv h \<Longrightarrow> 0 < length h \<Longrightarrow>
     think_loop n board s bid 0 h g = Some (Inr (h', g')) \<Longrightarrow> link_inv h'"
proof (induction n arbitrary: h g)
  case 0
  then show ?case by simp
next
  case (Suc n)
  from Suc.prems(4) obtain h1 g1 where
    st: "think_step board s bid 0 h g = Some (Inr (h1, g1))"
    and lp: "think_loop n board s bid 0 h1 g1 = Some (Inr (h', g'))"
    by (auto split: option.splits sum.splits)
  from tree_inv_think_step[OF Suc.prems(1,3) st] have t1: "tree_inv h1" "0 < length h1" by simp_all
  from link_inv_think_step[OF Suc.prems(1,2,3) st] have l1: "link_inv h1" .
  from Suc.IH[OF t1(1) l1 t1(2) lp] show ?case .
qed

lemma search_store_child:
  assumes inv: "tree_inv h" and li: "link_inv h" and lt: "node < length h"
    and c: "c \<in> snd ` set (child_nodes (h ! node))"
  shows "parent (h ! c) = Some node \<and> 0 \<le> visits (h ! c) \<and> visits (h ! c) \<le> visits (h ! node)"
proof -
  from inv have wc: "wf_children h"
    and cnt: "\<forall>nd\<in>set h. 0 \<le> wins nd \<and> wins nd \<le> visits nd" by (simp_all add: tree_inv_def)
  from wc lt c have cl: "c < length h" unfolding wf_children_def by blast
  from li lt c have p: "parent (h ! c) = Some node" unfolding link_inv_def by blast
  from li cl p have "visits (h ! c) \<le> visits (h ! node)" unfolding link_inv_def by blast
  moreover have "h ! c \<in> set h" using cl by simp
  with cnt have "0 \<le> visits (h ! c)" by fastforce
  ultimately show ?thesis using p by simp
qed

text \<open>
  Claim C1, as amended. In a search for the bot identity 1, take the store after any
  number of completed passes and any node of it. Every child of the node has the node as
  its parent, and the score of a child with nonzero visits is wins/visits plus 2 times the
  square root of ln(parent.visits)/visits: the exploitation term has the positive sign at
  every node, whichever player moves in the state of the node. When the node has a child,
  the selection returns a child of the node, and no child has a greater score.
\<close>

theorem ucb_score_and_selection_in_search:
  assumes run: "think_loop n board s 1 0 [new_MCTSNode None None al] g = Some (Inr (h, g'))"
    and lt: "node < length h"
  shows "(\<forall>c\<in>snd ` set (child_nodes (h ! node)).
            parent (h ! c) = Some node \<and>
            (visits (h ! c) \<noteq> 0 \<longrightarrow>
               ucb h c 1 = Inr (Fin (real_of_int (wins (h ! c)) / real_of_int (visits (h ! c))
                 + 2 * sqrt (ln (real_of_int (visits (h ! node))) / real_of_int (visits (h ! c))))))) \<and>
         (child_nodes (h ! node) \<noteq> [] \<longrightarrow>
            (\<exists>r. ucb_select h node 1 = Inr r \<and> r \<in> snd ` set (child_nodes (h ! node)) \<and>
               (\<exists>kr. ucb h r 1 = Inr kr \<and>
                  (\<forall>y\<in>snd ` set (child_nodes (h ! node)).
                     \<exists>ky. ucb h y 1 = Inr ky \<and> \<not> float_gt ky kr))))"
proof (intro conjI ballI impI)
  have inv: "tree_inv h" by (rule tree_inv_think_loop[OF tree_inv_root _ run]) simp
  have li: "link_inv h" by (rule link_inv_think_loop[OF tree_inv_root link_inv_root _ run]) simp
  {
    fix c assume c: "c \<in> snd ` set (child_nodes (h ! node))"
    from search_store_child[OF inv li lt c]
    show "parent (h ! c) = Some node" by simp
  next
    fix c assume c: "c \<in> snd ` set (child_nodes (h ! node))" and v: "visits (h ! c) \<noteq> 0"
    from search_store_child[OF inv li lt c] v
    have "0 < visits (h ! c)" "parent (h ! c) = Some node" "1 \<le> visits (h ! node)" by simp_all
    from ucb_formula[OF this, of 1]
    show "ucb h c 1 = Inr (Fin (real_of_int (wins (h ! c)) / real_of_int (visits (h ! c))
                 + 2 * sqrt (ln (real_of_int (visits (h ! node))) / real_of_int (visits (h ! c)))))"
      by simp
  next
    assume ne: "child_nodes (h ! node) \<noteq> []"
    then have ne': "map snd (child_nodes (h ! node)) \<noteq> []" by simp
    have "\<forall>x\<in>set (map snd (child_nodes (h ! node))). \<exists>k. ucb h x 1 = Inr k"
    proof
      fix x assume "x \<in> set (map snd (child_nodes (h ! node)))"
      then have x: "x \<in> snd ` set (child_nodes (h ! node))" by simp
      from search_store_child[OF inv li lt x]
      have "visits (h ! x) \<noteq> 0 \<longrightarrow>
         0 < visits (h ! x) \<and> (\<exists>p. parent (h ! x) = Some p \<and> 0 < visits (h ! p))" by auto
      then show "\<exists>k. ucb h x 1 = Inr k" by (rule ucb_total)
    qed
    from py_max_total[OF ne' this, of float_gt]
    obtain r where r: "ucb_select h node 1 = Inr r" by (auto simp: ucb_select_def)
    from ucb_select_max[OF r] r
    show "\<exists>r. ucb_select h node 1 = Inr r \<and> r \<in> snd ` set (child_nodes (h ! node)) \<and>
               (\<exists>kr. ucb h r 1 = Inr kr \<and>
                  (\<forall>y\<in>snd ` set (child_nodes (h ! node)).
                     \<exists>ky. ucb h y 1 = Inr ky \<and> \<not> float_gt ky kr))" by blast
  }
qed

lemma fork_heap_reached:
  "think_loop 2 fork_board 0 1 0 [new_MCTSNode None None (legal_actions fork_board 0)] zero_rng
     = Some (Inr (fork_heap, zero_rng))"
  by (simp add: numeral_2_eq_2 think_step_def traverse_nodes.simps rollout.simps backpropagate.simps
      expand_leaf_def choice_def is_win_def fork_board_def new_MCTSNode_def zero_rng_def Let_def
      fork_heap_def)

theorem ucb_score_and_selection_in_search_witness:
  "think_loop 2 fork_board 0 1 0 [new_MCTSNode None None (legal_actions fork_board 0)] zero_rng
     = Some (Inr (fork_heap, zero_rng)) \<and>
   0 < length fork_heap \<and>
   child_nodes (fork_heap ! 0) = [(0, 1), (1, 2)] \<and>
   visits (fork_heap ! 1) \<noteq> 0 \<and> visits (fork_heap ! 2) \<noteq> 0 \<and>
   ucb fork_heap 1 1 = Inr (Fin (0 + 2 * sqrt (ln 2))) \<and>
   ucb fork_heap 2 1 = Inr (Fin (1 + 2 * sqrt (ln 2))) \<and>
   ucb_select fork_heap 0 1 = Inr 2"
proof -
  have lt: "0 < length fork_heap" by (simp add: fork_heap_def)
  have ch: "child_nodes (fork_heap ! 0) = [(0, 1), (1, 2)]" by (simp add: fork_heap_def)
  have v: "visits (fork_heap ! 1) \<noteq> 0" "visits (fork_heap ! 2) \<noteq> 0" by (simp_all add: fork_heap_def)
  note c1 = ucb_score_and_selection_in_search[OF fork_heap_reached lt]
  have in1: "1 \<in> snd ` set (child_nodes (fork_heap ! 0))"
    and in2: "2 \<in> snd ` set (child_nodes (fork_heap ! 0))" unfolding ch by simp_all
  have s1: "ucb fork_heap 1 1 = Inr (Fin (0 + 2 * sqrt (ln 2)))"
    using mp[OF conjunct2[OF bspec[OF conjunct1[OF c1] in1]] v(1)] by (simp add: fork_heap_def)
  have s2: "ucb fork_heap 2 1 = Inr (Fin (1 + 2 * sqrt (ln 2)))"
    using mp[OF conjunct2[OF bspec[OF conjunct1[OF c1] in2]] v(2)] by (simp add: fork_heap_def)
  have ne: "child_nodes (fork_heap ! 0) \<noteq> []" unfolding ch by simp
  from mp[OF conjunct2[OF c1] ne] obtain r kr where
    r: "ucb_select fork_heap 0 1 = Inr r" and rin: "r \<in> snd ` set (child_nodes (fork_heap ! 0))"
    and kr: "ucb fork_heap r 1 = Inr kr"
    and mx: "\<forall>y\<in>snd ` set (child_nodes (fork_heap ! 0)).
                     \<exists>ky. ucb fork_heap y 1 = Inr ky \<and> \<not> float_gt ky kr"
    by (elim exE conjE)
  from bspec[OF mx in2] s2 have ngt: "\<not> float_gt (Fin (1 + 2 * sqrt (ln 2))) kr" by simp
  from rin have "r = 1 \<or> r = 2" unfolding ch by auto
  then have "r = 2"
  proof
    assume "r = 1"
    with kr s1 have "kr = Fin (0 + 2 * sqrt (ln 2))" by simp
    with ngt show ?thesis by simp
  qed
  with r lt ch v s1 s2 fork_heap_reached show ?thesis by (intro conjI) simp_all
qed

section \<open>The rollout calls on a terminal root\<close>

lemma think_step_traced_fst:
  "map_option fst (think_step_traced board s bid rt h g) = think_step board s bid rt h g"
  by (simp add: think_step_traced_def think_step_def split: option.splits sum.splits prod.splits)

lemma think_step_mod_traced_fst:
  "map_option fst (think_step_mod_traced board s bid rt h g) = think_step_mod board s bid rt h g"
  by (simp add: think_step_mod_traced_def think_step_mod_def split: option.splits sum.splits prod.splits)

lemma think_loop_traced_fst:
  "map_option fst (think_loop_traced n board s bid rt h g) = think_loop n board s bid rt h g"
proof (induction n arbitrary: h g)
  case 0
  show ?case by simp
next
  case (Suc n)
  show ?case
  proof (cases "think_step_traced board s bid rt h g")
    case None
    with think_step_traced_fst[of board s bid rt h g] show ?thesis by simp
  next
    case (Some rc)
    obtain res calls where rc: "rc = (res, calls)" by (cases rc)
    from Some rc think_step_traced_fst[of board s bid rt h g]
    have st: "think_step board s bid rt h g = Some res" by simp
    show ?thesis
    proof (cases res)
      case (Inl e)
      with Some rc st show ?thesis by simp
    next
      case (Inr hg)
      obtain h1 g1 where hg: "hg = (h1, g1)" by (cases hg)
      from Suc.IH[of h1 g1] Some rc st Inr hg show ?thesis
        by (cases "think_loop_traced n board s bid rt h1 g1") auto
    qed
  qed
qed

lemma think_loop_mod_traced_fst:
  "map_option fst (think_loop_mod_traced n board s bid rt h g) = think_loop_mod n board s bid rt h g"
proof (induction n arbitrary: h g)
  case 0
  show ?case by simp
next
  case (Suc n)
  show ?case
  proof (cases "think_step_mod_traced board s bid rt h g")
    case None
    with think_step_mod_traced_fst[of board s bid rt h g] show ?thesis by simp
  next
    case (Some rc)
    obtain res calls where rc: "rc = (res, calls)" by (cases rc)
    from Some rc think_step_mod_traced_fst[of board s bid rt h g]
    have st: "think_step_mod board s bid rt h g = Some res" by simp
    show ?thesis
    proof (cases res)
      case (Inl e)
      with Some rc st show ?thesis by simp
    next
      case (Inr hg)
      obtain h1 g1 where hg: "hg = (h1, g1)" by (cases hg)
      from Suc.IH[of h1 g1] Some rc st Inr hg show ?thesis
        by (cases "think_loop_mod_traced n board s bid rt h1 g1") auto
    qed
  qed
qed

lemma think_traced_fst: "map_option fst (think_traced board s g) = think board s g"
  unfolding think_traced_def think_def Let_def think_loop_traced_fst[symmetric]
  by (simp split: option.splits sum.splits prod.splits)

lemma think_mod_traced_fst: "map_option fst (think_mod_traced board s g) = think_mod board s g"
  unfolding think_mod_traced_def think_mod_def Let_def think_loop_mod_traced_fst[symmetric]
  by (simp split: option.splits sum.splits prod.splits)

lemma think_step_traced_terminal:
  assumes "is_ended board s" and "untried_actions (h ! 0) = []" and "parent (h ! 0) = None"
  shows "think_step_traced board s bid 0 h g =
           Some (case is_win board s bid of
                   Inl e \<Rightarrow> (Inl e, [s])
                 | Inr won \<Rightarrow> (Inr (h[0 := bump won (h ! 0)], g), [s]))"
    and "think_step_mod_traced board s bid 0 h g =
           Some (case is_win board s bid of
                   Inl e \<Rightarrow> (Inl e, [s])
                 | Inr won \<Rightarrow> (Inr (h[0 := bump won (h ! 0)], g), [s]))"
proof -
  have st: "stop_here board h 0 s" using assms(1) by (simp add: stop_here_def)
  have b: "\<And>won. backpropagate h (Some 0) won = Some (h[0 := bump won (h ! 0)])"
    using assms(3) by (simp add: backpropagate_Some backpropagate_None)
  show "think_step_traced board s bid 0 h g =
           Some (case is_win board s bid of
                   Inl e \<Rightarrow> (Inl e, [s])
                 | Inr won \<Rightarrow> (Inr (h[0 := bump won (h ! 0)], g), [s]))"
    by (simp add: think_step_traced_def traverse_nodes_stop[OF st] expand_leaf_noop[OF assms(2)]
        rollout_terminal[OF assms(1)] b split: sum.splits)
  show "think_step_mod_traced board s bid 0 h g =
           Some (case is_win board s bid of
                   Inl e \<Rightarrow> (Inl e, [s])
                 | Inr won \<Rightarrow> (Inr (h[0 := bump won (h ! 0)], g), [s]))"
    by (simp add: think_step_mod_traced_def traverse_nodes_mod_stop[OF st] expand_leaf_noop[OF assms(2)]
        rollout_mod_terminal[OF assms(1)] b split: sum.splits)
qed

lemma think_loop_traced_terminal_error:
  assumes "is_ended board s" and "untried_actions (h ! 0) = []" and "parent (h ! 0) = None"
    and "is_win board s bid = Inl e"
  shows "think_loop_traced (Suc n) board s bid 0 h g = Some (Inl e, [s])"
    and "think_loop_mod_traced (Suc n) board s bid 0 h g = Some (Inl e, [s])"
  by (simp_all add: think_step_traced_terminal[OF assms(1,2,3)] assms(4))

lemma think_loop_traced_terminal:
  assumes "is_ended board s" and "is_win board s bid = Inr won"
  shows "untried_actions (h ! 0) = [] \<Longrightarrow> parent (h ! 0) = None \<Longrightarrow> 0 < length h \<Longrightarrow>
     \<exists>h'. think_loop_traced n board s bid 0 h g = Some (Inr (h', g), replicate n s) \<and>
       child_nodes (h' ! 0) = child_nodes (h ! 0)"
proof (induction n arbitrary: h)
  case 0
  show ?case by simp
next
  case (Suc n)
  let ?h1 = "h[0 := bump won (h ! 0)]"
  have st: "think_step_traced board s bid 0 h g = Some (Inr (?h1, g), [s])"
    by (simp add: think_step_traced_terminal(1)[OF assms(1) Suc.prems(1,2)] assms(2))
  have "untried_actions (?h1 ! 0) = []" "parent (?h1 ! 0) = None" "0 < length ?h1"
    using Suc.prems by (simp_all add: bump_def)
  from Suc.IH[OF this] obtain h' where
    "think_loop_traced n board s bid 0 ?h1 g = Some (Inr (h', g), replicate n s)"
    "child_nodes (h' ! 0) = child_nodes (?h1 ! 0)" by blast
  with st Suc.prems(3) show ?case by (simp add: bump_def)
qed

lemma think_loop_mod_traced_terminal:
  assumes "is_ended board s" and "is_win board s bid = Inr won"
  shows "untried_actions (h ! 0) = [] \<Longrightarrow> parent (h ! 0) = None \<Longrightarrow> 0 < length h \<Longrightarrow>
     \<exists>h'. think_loop_mod_traced n board s bid 0 h g = Some (Inr (h', g), replicate n s) \<and>
       child_nodes (h' ! 0) = child_nodes (h ! 0)"
proof (induction n arbitrary: h)
  case 0
  show ?case by simp
next
  case (Suc n)
  let ?h1 = "h[0 := bump won (h ! 0)]"
  have st: "think_step_mod_traced board s bid 0 h g = Some (Inr (?h1, g), [s])"
    by (simp add: think_step_traced_terminal(2)[OF assms(1) Suc.prems(1,2)] assms(2))
  have "untried_actions (?h1 ! 0) = []" "parent (?h1 ! 0) = None" "0 < length ?h1"
    using Suc.prems by (simp_all add: bump_def)
  from Suc.IH[OF this] obtain h' where
    "think_loop_mod_traced n board s bid 0 ?h1 g = Some (Inr (h', g), replicate n s)"
    "child_nodes (h' ! 0) = child_nodes (?h1 ! 0)" by blast
  with st Suc.prems(3) show ?case by (simp add: bump_def)
qed

lemma think_traced_terminal:
  assumes e: "is_ended board s" and la: "legal_actions board s = []"
  shows "think_traced board s g =
       Some (case is_win board s (current_player board s) of
               Inl e \<Rightarrow> (Inl e, [s])
             | Inr won \<Rightarrow> (Inr None, replicate num_nodes s))"
    and "think_mod_traced board s g =
       Some (case is_win board s (current_player board s) of
               Inl e \<Rightarrow> (Inl e, [s])
             | Inr won \<Rightarrow> (Inr None, replicate num_nodes_mod s))"
proof -
  let ?h = "[new_MCTSNode None None (legal_actions board s)]"
  let ?bid = "current_player board s"
  have h: "untried_actions (?h ! 0) = []" "parent (?h ! 0) = None" "0 < length ?h"
    using la by (simp_all add: new_MCTSNode_def)
  have n: "num_nodes = Suc 99" by (simp add: num_nodes_def)
  have m: "num_nodes_mod = Suc 999" by (simp add: num_nodes_mod_def)
  show "think_traced board s g =
       Some (case is_win board s ?bid of
               Inl e \<Rightarrow> (Inl e, [s])
             | Inr won \<Rightarrow> (Inr None, replicate num_nodes s))"
  proof (cases "is_win board s ?bid")
    case (Inl err)
    from think_loop_traced_terminal_error(1)[OF e h(1,2) Inl, of 99 g]
    show ?thesis unfolding think_traced_def Let_def n by (simp add: Inl)
  next
    case (Inr won)
    from think_loop_traced_terminal[OF e Inr h, of num_nodes g] obtain h1 where
      h1: "think_loop_traced num_nodes board s ?bid 0 ?h g = Some (Inr (h1, g), replicate num_nodes s)"
        "child_nodes (h1 ! 0) = child_nodes (?h ! 0)" by blast
    then show ?thesis
      by (simp add: think_traced_def Let_def get_best_action_def new_MCTSNode_def Inr)
  qed
  show "think_mod_traced board s g =
       Some (case is_win board s ?bid of
               Inl e \<Rightarrow> (Inl e, [s])
             | Inr won \<Rightarrow> (Inr None, replicate num_nodes_mod s))"
  proof (cases "is_win board s ?bid")
    case (Inl err)
    from think_loop_traced_terminal_error(2)[OF e h(1,2) Inl, of 999 g]
    show ?thesis unfolding think_mod_traced_def Let_def m by (simp add: Inl)
  next
    case (Inr won)
    from think_loop_mod_traced_terminal[OF e Inr h, of num_nodes_mod g] obtain h1 where
      h1: "think_loop_mod_traced num_nodes_mod board s ?bid 0 ?h g
             = Some (Inr (h1, g), replicate num_nodes_mod s)"
        "child_nodes (h1 ! 0) = child_nodes (?h ! 0)" by blast
    then show ?thesis
      by (simp add: think_mod_traced_def Let_def get_best_action_def new_MCTSNode_def Inr)
  qed
qed

text \<open>
  Claim C9, as amended. On a terminal root state without legal actions every pass of the
  driver, in either module, calls \<^verbatim>\<open>rollout\<close> on the root state, and that call returns
  the state at once, without a move and without a draw from the random source. When
  \<^verbatim>\<open>is_win\<close> returns on the root state, the driver makes all its passes, with one call
  of \<^verbatim>\<open>rollout\<close> in each, and returns None, the value for no action, and no error. When
  \<^verbatim>\<open>is_win\<close> raises there, the exception ends the first pass, after its call of
  \<^verbatim>\<open>rollout\<close>.
\<close>

theorem think_terminal_root_rolls_out:
  "is_ended board s \<and> legal_actions board s = [] \<longrightarrow>
     think_traced board s g =
       Some (case is_win board s (current_player board s) of
               Inl e \<Rightarrow> (Inl e, [s])
             | Inr won \<Rightarrow> (Inr None, replicate num_nodes s)) \<and>
     think_mod_traced board s g =
       Some (case is_win board s (current_player board s) of
               Inl e \<Rightarrow> (Inl e, [s])
             | Inr won \<Rightarrow> (Inr None, replicate num_nodes_mod s)) \<and>
     think board s g =
       Some (case is_win board s (current_player board s) of
               Inl e \<Rightarrow> Inl e | Inr won \<Rightarrow> Inr None) \<and>
     think_mod board s g =
       Some (case is_win board s (current_player board s) of
               Inl e \<Rightarrow> Inl e | Inr won \<Rightarrow> Inr None) \<and>
     rollout board s g = Some (Inr (s, g)) \<and> rollout_mod board s g = Some (Inr (s, g))"
proof (intro impI)
  assume a: "is_ended board s \<and> legal_actions board s = []"
  then have e: "is_ended board s" and la: "legal_actions board s = []" by simp_all
  note t = think_traced_terminal[OF e la, of g]
  have "think board s g =
       Some (case is_win board s (current_player board s) of
               Inl e \<Rightarrow> Inl e | Inr won \<Rightarrow> Inr None)"
    using think_traced_fst[of board s g] unfolding t(1) by (simp split: sum.splits)
  moreover have "think_mod board s g =
       Some (case is_win board s (current_player board s) of
               Inl e \<Rightarrow> Inl e | Inr won \<Rightarrow> Inr None)"
    using think_mod_traced_fst[of board s g] unfolding t(2) by (simp split: sum.splits)
  ultimately show "think_traced board s g =
       Some (case is_win board s (current_player board s) of
               Inl e \<Rightarrow> (Inl e, [s])
             | Inr won \<Rightarrow> (Inr None, replicate num_nodes s)) \<and>
     think_mod_traced board s g =
       Some (case is_win board s (current_player board s) of
               Inl e \<Rightarrow> (Inl e, [s])
             | Inr won \<Rightarrow> (Inr None, replicate num_nodes_mod s)) \<and>
     think board s g =
       Some (case is_win board s (current_player board s) of
               Inl e \<Rightarrow> Inl e | Inr won \<Rightarrow> Inr None) \<and>
     think_mod board s g =
       Some (case is_win board s (current_player board s) of
               Inl e \<Rightarrow> Inl e | Inr won \<Rightarrow> Inr None) \<and>
     rollout board s g = Some (Inr (s, g)) \<and> rollout_mod board s g = Some (Inr (s, g))"
    using t rollout_terminal[OF e] rollout_mod_terminal[OF e] by (intro conjI)
qed

theorem think_terminal_root_rolls_out_witness:
  "is_ended line_board 4 \<and> legal_actions line_board 4 = [] \<and>
   is_win line_board 4 (current_player line_board 4) = Inr True \<and>
   think_traced line_board 4 zero_rng = Some (Inr None, replicate num_nodes 4) \<and>
   think_mod_traced line_board 4 zero_rng = Some (Inr None, replicate num_nodes_mod 4) \<and>
   think line_board 4 zero_rng = Some (Inr None) \<and>
   think_mod line_board 4 zero_rng = Some (Inr None) \<and>
   rollout line_board 4 zero_rng = Some (Inr (4, zero_rng)) \<and>
   rollout_mod line_board 4 zero_rng = Some (Inr (4, zero_rng)) \<and>
   is_ended fork_board 3 \<and> legal_actions fork_board 3 = [] \<and>
   is_win fork_board 3 (current_player fork_board 3) = Inl AssertionError \<and>
   think_traced fork_board 3 zero_rng = Some (Inl AssertionError, [3]) \<and>
   think_mod_traced fork_board 3 zero_rng = Some (Inl AssertionError, [3]) \<and>
   think fork_board 3 zero_rng = Some (Inl AssertionError) \<and>
   think_mod fork_board 3 zero_rng = Some (Inl AssertionError)"
proof -
  have hyp: "is_ended line_board 4 \<and> legal_actions line_board 4 = []"
    by (simp add: line_board_def)
  have w: "is_win line_board 4 (current_player line_board 4) = Inr True"
    by (simp add: is_win_def line_board_def)
  have hyp2: "is_ended fork_board 3 \<and> legal_actions fork_board 3 = []"
    by (simp add: fork_board_def)
  have w2: "is_win fork_board 3 (current_player fork_board 3) = Inl AssertionError"
    by (simp add: is_win_def fork_board_def)
  from mp[OF think_terminal_root_rolls_out[of line_board 4 zero_rng] hyp]
    mp[OF think_terminal_root_rolls_out[of fork_board 3 zero_rng] hyp2]
  show ?thesis using hyp w hyp2 w2 by simp
qed

text \<open>
  Claim C9 as stated fails. On \<open>line_board\<close> the state 3 is terminal and has no legal
  action. The driver returns None, and it has called \<^verbatim>\<open>rollout\<close> on the root state in
  every pass: 100 times in \<^verbatim>\<open>mcts_vanilla\<close> and 1000 times in \<^verbatim>\<open>mcts_modified\<close>.
\<close>

theorem think_terminal_root_rollout_counterexample:
  "is_ended line_board 3 \<and>
   think_traced line_board 3 zero_rng = Some (Inr None, replicate 100 3) \<and>
   think_mod_traced line_board 3 zero_rng = Some (Inr None, replicate 1000 3) \<and>
   map_option fst (think_traced line_board 3 zero_rng) = think line_board 3 zero_rng \<and>
   map_option fst (think_mod_traced line_board 3 zero_rng) = think_mod line_board 3 zero_rng"
proof -
  have e: "is_ended line_board 3" and la: "legal_actions line_board 3 = []"
    by (simp_all add: line_board_def)
  have w: "is_win line_board 3 (current_player line_board 3) = Inr False"
    by (simp add: is_win_def line_board_def)
  from think_traced_terminal[OF e la, of zero_rng] w
  have "think_traced line_board 3 zero_rng = Some (Inr None, replicate 100 3)"
    "think_mod_traced line_board 3 zero_rng = Some (Inr None, replicate 1000 3)"
    by (simp_all add: num_nodes_def num_nodes_mod_def)
  with e think_traced_fst[of line_board 3 zero_rng] think_mod_traced_fst[of line_board 3 zero_rng]
  show ?thesis by (intro conjI)
qed

end
